theory Spec2Isabelle
  imports Main "HOL-Library.Word"
begin

unbundle bit_operations_syntax

section \<open>The registry: objects, entries, planes\<close>

text \<open>
  Innie.cpp works on the IOKit registry through pointers. Objects that can be the value
  of a property live in a heap, a list indexed by address: allocating appends, so a new
  object never has the address of an old one. A dictionary holds the addresses of its
  members (copying it is shallow). \<open>OSBoolean\<close> has only the two instances
  \<open>kOSBooleanTrue\<close> and \<open>kOSBooleanFalse\<close>, so comparing a pointer with
  \<open>kOSBooleanTrue\<close> is comparing the value.
\<close>

type_synonym addr = nat
type_synonym entry_id = nat

datatype osobject =
    OSBoolean bool
  | OSData "8 word list"
  | OSString string
  | OSDictionary "(string \<times> addr) list"
  | OSOther

text \<open>
  A registry entry: its name (\<open>None\<close> when \<open>getName\<close> gives a null pointer), its
  property table, and its children in the device-tree plane and in the service plane.
\<close>

record regentry =
  entry_name :: "string option"
  table :: "string \<Rightarrow> addr option"
  dt_children :: "entry_id list"
  svc_children :: "entry_id list"

record registry =
  dt_root :: "entry_id option"
  entries :: "entry_id \<Rightarrow> regentry"
  heap :: "osobject list"

text \<open>
  The enumeration subsystem runs beside the driver and changes the registry. The driver
  gives it the processor in \<open>IOSleep\<close>: \<open>env t d r\<close> is the registry that the
  subsystem leaves after \<open>d\<close> milliseconds, started at time \<open>t\<close> on registry \<open>r\<close>.
\<close>

type_synonym environment = "nat \<Rightarrow> nat \<Rightarrow> registry \<Rightarrow> registry"

text \<open>
  What the driver does that can be seen from outside: it sleeps, selects a PCI root
  (line 61), enters \<open>recurseBridge\<close>, \<open>internalizeDevice\<close> and
  \<open>updateOtherProperties\<close>, and registers its service.
\<close>

datatype event =
    Sleep nat
  | FoundRoot entry_id
  | Recurse entry_id
  | Internalize entry_id
  | Update entry_id
  | Register

text \<open>
  The machine: the registry, the clock in milliseconds, the events so far, and the
  outcomes of the allocations to come (\<open>True\<close>: that allocation fails; past the
  end of the list every allocation succeeds).
\<close>

record machine =
  reg :: registry
  clock :: nat
  trace :: "event list"
  oom :: "bool list"

datatype fault = OutOfFuel | NoReturn | InvalidRead

text \<open>The class codes of Innie.hpp, which is not among the sources: a parameter.\<close>

record classCode =
  SATADevice :: "32 word"
  NVMeDevice :: "32 word"
  RAIDDevice :: "32 word"
  PCIBridge :: "32 word"

section \<open>The IOKit calls that Innie.cpp makes\<close>

definition emit :: "event \<Rightarrow> machine \<Rightarrow> machine" where
  "emit ev m = m\<lparr>trace := trace m @ [ev]\<rparr>"

definition IOSleep :: "environment \<Rightarrow> nat \<Rightarrow> machine \<Rightarrow> machine" where
  "IOSleep env ms m =
     m\<lparr>reg := env (clock m) ms (reg m), clock := clock m + ms, trace := trace m @ [Sleep ms]\<rparr>"

definition getProperty :: "entry_id \<Rightarrow> string \<Rightarrow> machine \<Rightarrow> addr option" where
  "getProperty e key m = table (entries (reg m) e) key"

definition object_at :: "machine \<Rightarrow> addr \<Rightarrow> osobject option" where
  "object_at m a = (if a < length (heap (reg m)) then Some (heap (reg m) ! a) else None)"

text \<open>\<open>OSDynamicCast(OSBoolean, p) == kOSBooleanTrue\<close> for the property \<open>key\<close>.\<close>

definition isTrue :: "string \<Rightarrow> entry_id \<Rightarrow> machine \<Rightarrow> bool" where
  "isTrue key e m =
     (case getProperty e key m of
        None \<Rightarrow> False
      | Some a \<Rightarrow> object_at m a = Some (OSBoolean True))"

text \<open>\<open>OSDynamicCast(OSDictionary, p)\<close> and \<open>OSDynamicCast(OSData, p)\<close>.\<close>

definition castDictionary :: "machine \<Rightarrow> addr \<Rightarrow> (string \<times> addr) list option" where
  "castDictionary m a =
     (case object_at m a of Some (OSDictionary kvs) \<Rightarrow> Some kvs | _ \<Rightarrow> None)"

definition castData :: "machine \<Rightarrow> addr \<Rightarrow> 8 word list option" where
  "castData m a = (case object_at m a of Some (OSData bs) \<Rightarrow> Some bs | _ \<Rightarrow> None)"

text \<open>Whether the next allocation succeeds; it uses up one planned outcome.\<close>

definition try_alloc :: "machine \<Rightarrow> bool \<times> machine" where
  "try_alloc m = (case oom m of [] \<Rightarrow> (True, m) | b # bs \<Rightarrow> (\<not> b, m\<lparr>oom := bs\<rparr>))"

text \<open>
  The constructors \<open>OSData::withBytes\<close>, \<open>OSString::withCString\<close>,
  \<open>OSDictionary::withDictionary\<close> and \<open>OSDictionary::withCapacity\<close>: a null pointer
  when the allocation fails, else the address of the new object, at the end of the heap.
\<close>

definition new_object :: "osobject \<Rightarrow> machine \<Rightarrow> addr option \<times> machine" where
  "new_object obj m =
     (case try_alloc m of
        (False, m') \<Rightarrow> (None, m')
      | (True, m') \<Rightarrow>
          (Some (length (heap (reg m'))),
           m'\<lparr>reg := (reg m')\<lparr>heap := heap (reg m') @ [obj]\<rparr>\<rparr>))"

text \<open>
  \<open>setProperty\<close> stores the pointer in the entry's table. \<open>setObject\<close> changes the
  dictionary at the given address in place: the key keeps its position when it is there
  already, and goes to the end otherwise. Both are taken to succeed; the source ignores
  what they return.
\<close>

definition setProperty :: "entry_id \<Rightarrow> string \<Rightarrow> addr \<Rightarrow> machine \<Rightarrow> machine" where
  "setProperty e key a m =
     m\<lparr>reg := (reg m)\<lparr>entries := (entries (reg m))
        (e := (entries (reg m) e)\<lparr>table := (table (entries (reg m) e))(key \<mapsto> a)\<rparr>)\<rparr>\<rparr>"

fun set_key :: "string \<Rightarrow> 'a \<Rightarrow> (string \<times> 'a) list \<Rightarrow> (string \<times> 'a) list" where
  "set_key k v [] = [(k, v)]"
| "set_key k v (p # ps) = (if fst p = k then (k, v) # ps else p # set_key k v ps)"

definition setObject :: "addr \<Rightarrow> string \<Rightarrow> addr \<Rightarrow> machine \<Rightarrow> machine" where
  "setObject d key a m =
     (case castDictionary m d of
        None \<Rightarrow> m
      | Some kvs \<Rightarrow>
          m\<lparr>reg := (reg m)\<lparr>heap := (heap (reg m))[d := OSDictionary (set_key key a kvs)]\<rparr>\<rparr>)"

text \<open>
  \<open>getChildIterator(gIODTPlane)\<close> iterates over a copy of the child links taken when it
  is made; it is a null pointer when it cannot be allocated.
\<close>

definition getChildIterator :: "entry_id \<Rightarrow> machine \<Rightarrow> entry_id list option \<times> machine" where
  "getChildIterator e m =
     (case try_alloc m of
        (False, m') \<Rightarrow> (None, m')
      | (True, m') \<Rightarrow> (Some (dt_children (entries (reg m') e)), m'))"

text \<open>
  \<open>IORegistryIterator\<close> with \<open>kIORegistryIterateRecursively\<close>: a stack of child
  cursors and the set \<open>done\<close> of entries already entered. The next object is the next
  child of the innermost cursor; it is entered (its children pushed) unless it is in
  \<open>done\<close>. The start entry is not delivered and is not in \<open>done\<close>. On a plane with
  infinitely many entries below the start the iteration does not end: \<open>None\<close>.
\<close>

partial_function (option) getNextObjects ::
  "(entry_id \<Rightarrow> entry_id list) \<Rightarrow> entry_id list list \<Rightarrow> entry_id list \<Rightarrow> entry_id list
     \<Rightarrow> entry_id list option" where
  "getNextObjects children stack done acc =
     (case stack of
        [] \<Rightarrow> Some (rev acc)
      | [] # rest \<Rightarrow> getNextObjects children rest done acc
      | (x # xs) # rest \<Rightarrow>
          (if x \<in> set done then getNextObjects children (xs # rest) done (x # acc)
           else getNextObjects children (children x # xs # rest) (x # done) (x # acc)))"

definition iterateServicePlane :: "registry \<Rightarrow> entry_id \<Rightarrow> entry_id list option" where
  "iterateServicePlane r e =
     getNextObjects (\<lambda>x. svc_children (entries r x)) [svc_children (entries r e)] [] []"

text \<open>
  \<open>*(uint32_t * )codeData->getBytesNoCopy()\<close> on a little-endian machine: the first four
  bytes. On fewer than four bytes the source reads outside the buffer: \<open>None\<close>.
\<close>

definition read_u32 :: "8 word list \<Rightarrow> 32 word option" where
  "read_u32 bs =
     (case bs of
        b0 # b1 # b2 # b3 # _ \<Rightarrow>
          Some (ucast b0 OR push_bit 8 (ucast b1) OR push_bit 16 (ucast b2)
                OR push_bit 24 (ucast b3))
      | _ \<Rightarrow> None)"

text \<open>\<open>name && !strncmp("PC", name, 2)\<close>\<close>

definition isPCName :: "string option \<Rightarrow> bool" where
  "isPCName n = (case n of None \<Rightarrow> False | Some s \<Rightarrow> take 2 s = ''PC'')"

section \<open>Innie.cpp\<close>

text \<open>\<open>Innie::setBuiltIn\<close>, lines 165 to 174.\<close>

fun setBuiltIn :: "entry_id option \<Rightarrow> machine \<Rightarrow> machine" where
  "setBuiltIn None m = m"
| "setBuiltIn (Some e) m =
     (case new_object (OSData [1]) m of
        (None, m') \<Rightarrow> m'
      | (Some builtInData, m') \<Rightarrow> setProperty e ''built-in'' builtInData m')"

text \<open>The block of lines 193 to 203: the icon.\<close>

definition updateIcon :: "entry_id \<Rightarrow> addr \<Rightarrow> machine \<Rightarrow> machine" where
  "updateIcon e internalIcon m =
     (case getProperty e ''IOMediaIcon'' m of
        None \<Rightarrow> m
      | Some icon \<Rightarrow>
          (case castDictionary m icon of
             None \<Rightarrow> m
           | Some kvs \<Rightarrow>
               (case new_object (OSDictionary kvs) m of
                  (None, m') \<Rightarrow> m'
                | (Some dict, m') \<Rightarrow>
                    setProperty e ''IOMediaIcon'' dict
                      (setObject dict ''IOBundleResourceFile'' internalIcon m'))))"

text \<open>The block of lines 206 to 224: the protocol characteristics.\<close>

definition updateProtocol :: "entry_id \<Rightarrow> addr \<Rightarrow> machine \<Rightarrow> machine" where
  "updateProtocol e internal m =
     (case getProperty e ''Protocol Characteristics'' m of
        Some proto \<Rightarrow>
          (case castDictionary m proto of
             None \<Rightarrow> m
           | Some kvs \<Rightarrow>
               (case new_object (OSDictionary kvs) m of
                  (None, m') \<Rightarrow> m'
                | (Some dict, m') \<Rightarrow>
                    setProperty e ''Protocol Characteristics'' dict
                      (setObject dict ''Physical Interconnect Location'' internal m')))
      | None \<Rightarrow>
          (case new_object (OSDictionary []) m of
             (None, m') \<Rightarrow> m'
           | (Some newDict, m') \<Rightarrow>
               setProperty e ''Protocol Characteristics'' newDict
                 (setObject newDict ''Physical Interconnect Location'' internal m')))"

text \<open>\<open>Innie::updateOtherProperties\<close>, lines 176 to 231.\<close>

fun updateOtherProperties :: "entry_id option \<Rightarrow> machine \<Rightarrow> machine" where
  "updateOtherProperties None m = m"
| "updateOtherProperties (Some e) m =
     (case new_object (OSString ''Internal'') (emit (Update e) m) of
        (internal, m1) \<Rightarrow>
          (case new_object (OSString ''Internal.icns'') m1 of
             (internalIcon, m2) \<Rightarrow>
               (case (internal, internalIcon) of
                  (Some i, Some ic) \<Rightarrow>
                    setBuiltIn (Some e)
                      (updateProtocol e i
                        (updateIcon e ic
                          (setProperty e ''Physical Interconnect Location'' i m2)))
                | _ \<Rightarrow> m2)))"

text \<open>
  The two bounded waits (lines 101 to 105 and 126 to 130):
  \<open>while (flag != kOSBooleanTrue && timeout-- > 0) IOSleep(10);\<close>
  The result is the value of \<open>timeout\<close> after the loop and the machine. \<open>timeout\<close>
  is a C \<open>int\<close> that stays between -1 and its start value.
\<close>

function waitFlag ::
  "environment \<Rightarrow> string \<Rightarrow> entry_id \<Rightarrow> int \<Rightarrow> machine \<Rightarrow> int \<times> machine" where
  "waitFlag env key e timeout m =
     (if isTrue key e m then (timeout, m)
      else if timeout > 0 then waitFlag env key e (timeout - 1) (IOSleep env 10 m)
      else (timeout - 1, m))"
  by pat_completeness auto
termination
  by (relation "measure (\<lambda>(env, key, e, timeout, m). nat timeout)") auto

text \<open>The loop over the driver entries, lines 147 to 152.\<close>

fun updateDrivers :: "entry_id \<Rightarrow> entry_id list \<Rightarrow> machine \<Rightarrow> machine" where
  "updateDrivers e [] m = m"
| "updateDrivers e (driverEntry # rest) m =
     updateDrivers e rest
       (if driverEntry \<noteq> e then updateOtherProperties (Some driverEntry) m else m)"

text \<open>The \<open>for\<close> loop of lines 138 to 160, from the value \<open>pass\<close> on.\<close>

function passes :: "environment \<Rightarrow> entry_id \<Rightarrow> int \<Rightarrow> machine \<Rightarrow> fault + machine" where
  "passes env e pass m =
     (if pass < 3 then
        (case try_alloc (updateOtherProperties (Some e) m) of
           (False, m1) \<Rightarrow>
             passes env e (pass + 1) (if pass < 2 then IOSleep env 100 m1 else m1)
         | (True, m1) \<Rightarrow>
             (case iterateServicePlane (reg m1) e of
                None \<Rightarrow> Inl NoReturn
              | Some drivers \<Rightarrow>
                  passes env e (pass + 1)
                    (if pass < 2 then IOSleep env 100 (updateDrivers e drivers m1)
                     else updateDrivers e drivers m1)))
      else Inr m)"
  by pat_completeness auto
termination
  by (relation "measure (\<lambda>(env, e, pass, m). nat (3 - pass))") auto

text \<open>\<open>Innie::internalizeDevice\<close>, lines 119 to 163.\<close>

definition internalizeDevice :: "environment \<Rightarrow> entry_id \<Rightarrow> machine \<Rightarrow> fault + machine" where
  "internalizeDevice env e m =
     (case waitFlag env ''IOPCIResourced'' e 2000
             (setBuiltIn (Some e) (emit (Internalize e) m)) of
        (timeout, m1) \<Rightarrow> if timeout \<le> 0 then Inr m1 else passes env e 0 m1)"

text \<open>
  \<open>Innie::recurseBridge\<close>, lines 82 to 117. The registry can grow while the walk
  sleeps, so the depth of the recursion has no bound in the code: \<open>fuel\<close> bounds it
  here. \<open>bridgeChildren\<close> is the \<open>while\<close> loop over the child iterator.
\<close>

fun recurseBridge ::
    "nat \<Rightarrow> classCode \<Rightarrow> environment \<Rightarrow> entry_id \<Rightarrow> machine \<Rightarrow> fault + machine"
  and bridgeChildren ::
    "nat \<Rightarrow> classCode \<Rightarrow> environment \<Rightarrow> entry_id list \<Rightarrow> machine \<Rightarrow> fault + machine"
where
  "recurseBridge 0 cc env e m = Inl OutOfFuel"
| "recurseBridge (Suc fuel) cc env e m =
     (case getChildIterator e (emit (Recurse e) m) of
        (None, m') \<Rightarrow> Inr m'
      | (Some children, m') \<Rightarrow> bridgeChildren fuel cc env children m')"
| "bridgeChildren fuel cc env [] m = Inr m"
| "bridgeChildren fuel cc env (childEntry # rest) m =
     (case getProperty childEntry ''class-code'' m of
        None \<Rightarrow> bridgeChildren fuel cc env rest m
      | Some class_code \<Rightarrow>
          (case castData m class_code of
             None \<Rightarrow> bridgeChildren fuel cc env rest m
           | Some codeData \<Rightarrow>
               (case read_u32 codeData of
                  None \<Rightarrow> Inl InvalidRead
                | Some code \<Rightarrow>
                    if code = SATADevice cc \<or> code = NVMeDevice cc \<or> code = RAIDDevice cc
                    then (case internalizeDevice env childEntry m of
                            Inl f \<Rightarrow> Inl f
                          | Inr m' \<Rightarrow> bridgeChildren fuel cc env rest m')
                    else if code = PCIBridge cc
                    then (case waitFlag env ''IOPCIConfigured'' childEntry 1000 m of
                            (timeout, m1) \<Rightarrow>
                              if timeout > 0
                              then (case recurseBridge fuel cc env childEntry m1 of
                                      Inl f \<Rightarrow> Inl f
                                    | Inr m2 \<Rightarrow> bridgeChildren fuel cc env rest m2)
                              else bridgeChildren fuel cc env rest m1)
                    else bridgeChildren fuel cc env rest m)))"

text \<open>
  The wait of lines 63 to 66 has no bound: when the flag never comes, the function does
  not return (\<open>None\<close>).
\<close>

partial_function (option) waitRootConfigured ::
  "environment \<Rightarrow> entry_id \<Rightarrow> machine \<Rightarrow> machine option" where
  "waitRootConfigured env e m =
     (if isTrue ''IOPCIConfigured'' e m then Some m
      else waitRootConfigured env e (IOSleep env 10 m))"

text \<open>
  The \<open>while\<close> loop of lines 57 to 74 over one child iterator; it gives back the
  variables \<open>ready\<close> and \<open>found\<close>. The \<open>break\<close> of line 71 ends it.
\<close>

fun scanRoots ::
  "nat \<Rightarrow> classCode \<Rightarrow> environment \<Rightarrow> entry_id list \<Rightarrow> bool \<Rightarrow> bool \<Rightarrow> machine
     \<Rightarrow> fault + (bool \<times> bool \<times> machine)" where
  "scanRoots fuel cc env [] ready found m = Inr (ready, found, m)"
| "scanRoots fuel cc env (pciRoot # rest) ready found m =
     (if isPCName (entry_name (entries (reg m) pciRoot)) then
        (if ready then
           (case waitRootConfigured env pciRoot (emit (FoundRoot pciRoot) m) of
              None \<Rightarrow> Inl NoReturn
            | Some m1 \<Rightarrow>
                (case recurseBridge fuel cc env pciRoot m1 of
                   Inl f \<Rightarrow> Inl f
                 | Inr m2 \<Rightarrow> scanRoots fuel cc env rest ready True m2))
         else Inr (True, found, IOSleep env 1000 m))
      else scanRoots fuel cc env rest ready found m)"

text \<open>
  The \<open>do ... while (repeat++ < 0x10000000 && !found)\<close> loop of lines 55 to 77;
  \<open>repeat\<close> is a \<open>size_t\<close> that stays below 0x10000002.
\<close>

definition scanOnce ::
  "nat \<Rightarrow> classCode \<Rightarrow> environment \<Rightarrow> entry_id \<Rightarrow> bool \<Rightarrow> bool \<Rightarrow> machine
     \<Rightarrow> fault + (bool \<times> bool \<times> machine)" where
  "scanOnce fuel cc env entry ready found m =
     (case getChildIterator entry m of
        (None, m') \<Rightarrow> Inr (ready, found, m')
      | (Some children, m') \<Rightarrow> scanRoots fuel cc env children ready found m')"

function rootLoop ::
  "nat \<Rightarrow> classCode \<Rightarrow> environment \<Rightarrow> entry_id \<Rightarrow> bool \<Rightarrow> bool \<Rightarrow> nat \<Rightarrow> machine
     \<Rightarrow> fault + (bool \<times> machine)" where
  "rootLoop fuel cc env entry ready found repeat m =
     (case scanOnce fuel cc env entry ready found m of
        Inl f \<Rightarrow> Inl f
      | Inr (ready', found', m') \<Rightarrow>
          if repeat < 268435456 \<and> \<not> found'
          then rootLoop fuel cc env entry ready' found' (repeat + 1) m'
          else Inr (found', m'))"
  by pat_completeness auto
termination
  by (relation "measure (\<lambda>(fuel, cc, env, entry, ready, found, repeat, m). 268435457 - repeat)")
    auto

text \<open>
  \<open>Innie::processRoot\<close>, lines 50 to 80. It returns nothing; the model also gives the
  last value of the local \<open>found\<close>, which the source drops.
\<close>

definition processRoot ::
  "nat \<Rightarrow> classCode \<Rightarrow> environment \<Rightarrow> machine \<Rightarrow> fault + (bool \<times> machine)" where
  "processRoot fuel cc env m =
     (case dt_root (reg m) of
        None \<Rightarrow> Inr (False, m)
      | Some entry \<Rightarrow> rootLoop fuel cc env entry False False 0 m)"

text \<open>
  \<open>Innie::start\<close>, lines 34 to 43. \<open>super_start\<close> is what \<open>IOService::start\<close>
  returns. The result is the returned \<open>bool\<close> and the machine.
\<close>

definition start ::
  "bool \<Rightarrow> nat \<Rightarrow> classCode \<Rightarrow> environment \<Rightarrow> machine \<Rightarrow> fault + (bool \<times> machine)" where
  "start super_start fuel cc env m =
     (if \<not> super_start then Inr (False, m)
      else (case processRoot fuel cc env m of
              Inl f \<Rightarrow> Inl f
            | Inr (found, m') \<Rightarrow> Inr (True, emit Register m')))"

section \<open>Notions used to state the properties\<close>

text \<open>The machine after \<open>k\<close> sleeps of 10 ms: where the \<open>k\<close>-th later poll looks.\<close>

definition polls :: "environment \<Rightarrow> nat \<Rightarrow> machine \<Rightarrow> machine" where
  "polls env k m = ((IOSleep env 10) ^^ k) m"

text \<open>From \<open>m\<close> to \<open>m'\<close> events were only added, and no root was selected.\<close>

definition quiet_step :: "machine \<Rightarrow> machine \<Rightarrow> bool" where
  "quiet_step m m' = (\<exists>evs. trace m' = trace m @ evs \<and> (\<forall>r. FoundRoot r \<notin> set evs))"

text \<open>From \<open>m\<close> to \<open>m'\<close> the heap was only extended.\<close>

definition heap_grows :: "machine \<Rightarrow> machine \<Rightarrow> bool" where
  "heap_grows m m' = (\<exists>ext. heap (reg m') = heap (reg m) @ ext)"

text \<open>
  A dictionary \<open>kvs\<close> put at the end of the heap and stored under \<open>key\<close>: what
  copying a dictionary, changing the copy and storing it comes to.
\<close>

definition stored_copy ::
  "entry_id \<Rightarrow> string \<Rightarrow> (string \<times> addr) list \<Rightarrow> machine \<Rightarrow> machine" where
  "stored_copy e key kvs m =
     setProperty e key (length (heap (reg m)))
       (m\<lparr>oom := tl (oom m), reg := (reg m)\<lparr>heap := heap (reg m) @ [OSDictionary kvs]\<rparr>\<rparr>)"

text \<open>The machine after the two strings of \<open>updateOtherProperties\<close> were allocated.\<close>

definition with_strings :: "entry_id \<Rightarrow> machine \<Rightarrow> machine" where
  "with_strings e m =
     m\<lparr>trace := trace m @ [Update e],
       reg := (reg m)\<lparr>heap := heap (reg m) @ [OSString ''Internal'', OSString ''Internal.icns'']\<rparr>\<rparr>"

text \<open>
  The root, the names and the children in both planes are the same in \<open>m\<close> and
  \<open>m'\<close>; an enumeration subsystem that never changes them; a quiet step between
  machines of the same shape.
\<close>

definition same_shape :: "machine \<Rightarrow> machine \<Rightarrow> bool" where
  "same_shape m m' =
     (dt_root (reg m') = dt_root (reg m)
      \<and> (\<forall>x. entry_name (entries (reg m') x) = entry_name (entries (reg m) x)
            \<and> dt_children (entries (reg m') x) = dt_children (entries (reg m) x)
            \<and> svc_children (entries (reg m') x) = svc_children (entries (reg m) x)))"

definition keeps_shape :: "environment \<Rightarrow> bool" where
  "keeps_shape env =
     (\<forall>t d r. dt_root (env t d r) = dt_root r
        \<and> (\<forall>x. entry_name (entries (env t d r) x) = entry_name (entries r x)
              \<and> dt_children (entries (env t d r) x) = dt_children (entries r x)
              \<and> svc_children (entries (env t d r) x) = svc_children (entries r x)))"

definition calm :: "machine \<Rightarrow> machine \<Rightarrow> bool" where
  "calm m m' = (quiet_step m m' \<and> same_shape m m')"

text \<open>The roots selected in a trace, in order.\<close>

fun selected :: "event list \<Rightarrow> entry_id list" where
  "selected [] = []"
| "selected (FoundRoot r # evs) = r # selected evs"
| "selected (ev # evs) = selected evs"

text \<open>
  The service plane as a relation, and the descendants of an entry in it: the entries
  reached from it by one or more child links.
\<close>

definition svc_edges :: "registry \<Rightarrow> (entry_id \<times> entry_id) set" where
  "svc_edges r = {(x, y). y \<in> set (svc_children (entries r x))}"

definition svc_descendants :: "registry \<Rightarrow> entry_id \<Rightarrow> entry_id set" where
  "svc_descendants r e = {y. (e, y) \<in> (svc_edges r)\<^sup>+}"

text \<open>
  The value of a property, read through the pointers down to a depth: what a reader of
  the registry sees. \<open>VCut\<close> stands where the depth ends and \<open>VInvalid\<close> for a
  pointer to nothing.
\<close>

datatype pvalue =
    VBool bool
  | VData "8 word list"
  | VString string
  | VDict "(string \<times> pvalue) list"
  | VOther
  | VInvalid
  | VCut

fun view :: "nat \<Rightarrow> osobject list \<Rightarrow> addr \<Rightarrow> pvalue" where
  "view 0 h a = VCut"
| "view (Suc n) h a =
     (if a < length h then
        (case h ! a of
           OSBoolean b \<Rightarrow> VBool b
         | OSData bs \<Rightarrow> VData bs
         | OSString s \<Rightarrow> VString s
         | OSDictionary kvs \<Rightarrow> VDict (map (\<lambda>p. (fst p, view n h (snd p))) kvs)
         | OSOther \<Rightarrow> VOther)
      else VInvalid)"

definition property_state :: "nat \<Rightarrow> machine \<Rightarrow> entry_id \<Rightarrow> string \<Rightarrow> pvalue option" where
  "property_state n m e key = map_option (view n (heap (reg m))) (getProperty e key m)"

text \<open>No pointer in a dictionary or in a property table points outside the heap.\<close>

definition heap_closed :: "osobject list \<Rightarrow> bool" where
  "heap_closed h =
     (\<forall>a<length h. \<forall>kvs. h ! a = OSDictionary kvs \<longrightarrow> (\<forall>p\<in>set kvs. snd p < length h))"

definition well_formed :: "machine \<Rightarrow> bool" where
  "well_formed m =
     (heap_closed (heap (reg m))
      \<and> (\<forall>e key a. getProperty e key m = Some a \<longrightarrow> a < length (heap (reg m))))"

text \<open>What a new object with no pointers of its own shows at depth \<open>n\<close>.\<close>

definition leaf :: "nat \<Rightarrow> pvalue \<Rightarrow> pvalue" where
  "leaf n v = (case n of 0 \<Rightarrow> VCut | Suc _ \<Rightarrow> v)"

text \<open>
  The four properties that the driver writes, and what a write does to the value a reader
  sees at depth \<open>n\<close>.
\<close>

datatype cell = Location | Icon | Protocol | BuiltIn

fun cell_key :: "cell \<Rightarrow> string" where
  "cell_key Location = ''Physical Interconnect Location''"
| "cell_key Icon = ''IOMediaIcon''"
| "cell_key Protocol = ''Protocol Characteristics''"
| "cell_key BuiltIn = ''built-in''"

fun cell_value :: "nat \<Rightarrow> cell \<Rightarrow> pvalue option \<Rightarrow> pvalue option" where
  "cell_value n Location v = Some (leaf n (VString ''Internal''))"
| "cell_value n BuiltIn v = Some (leaf n (VData [1]))"
| "cell_value n Icon v =
     (case v of
        Some (VDict l) \<Rightarrow>
          Some (VDict (set_key ''IOBundleResourceFile'' (leaf (n - 1) (VString ''Internal.icns'')) l))
      | _ \<Rightarrow> v)"
| "cell_value n Protocol v =
     (case v of
        None \<Rightarrow>
          Some (leaf n (VDict [(''Physical Interconnect Location'',
                                leaf (n - 1) (VString ''Internal''))]))
      | Some (VDict l) \<Rightarrow>
          Some (VDict (set_key ''Physical Interconnect Location''
                         (leaf (n - 1) (VString ''Internal'')) l))
      | _ \<Rightarrow> v)"

definition write_cell ::
  "nat \<Rightarrow> entry_id \<times> cell \<Rightarrow> (entry_id \<Rightarrow> string \<Rightarrow> pvalue option)
     \<Rightarrow> entry_id \<Rightarrow> string \<Rightarrow> pvalue option" where
  "write_cell n c s =
     s(fst c := (s (fst c))(cell_key (snd c) := cell_value n (snd c) (s (fst c) (cell_key (snd c)))))"

fun run_cells ::
  "nat \<Rightarrow> (entry_id \<times> cell) list \<Rightarrow> (entry_id \<Rightarrow> string \<Rightarrow> pvalue option)
     \<Rightarrow> entry_id \<Rightarrow> string \<Rightarrow> pvalue option" where
  "run_cells n [] s = s"
| "run_cells n (c # cs) s = write_cell n c (run_cells n cs s)"

section \<open>Concrete registries\<close>

text \<open>An enumeration subsystem that does nothing, and one that installs \<open>r1\<close> at time \<open>T\<close>.\<close>

definition env_idle :: environment where
  "env_idle t d r = r"

definition env_switch :: "nat \<Rightarrow> registry \<Rightarrow> environment" where
  "env_switch T r1 t d r = (if T \<le> t + d then r1 else r)"

text \<open>The usual PCI class codes, as an instance of the parameter.\<close>

definition pci_codes :: classCode where
  "pci_codes = \<lparr>SATADevice = 0x010601, NVMeDevice = 0x010802, RAIDDevice = 0x010400,
                 PCIBridge = 0x060400\<rparr>"

definition blank_entry :: regentry where
  "blank_entry = \<lparr>entry_name = None, table = Map.empty, dt_children = [], svc_children = []\<rparr>"

definition machine_of :: "registry \<Rightarrow> machine" where
  "machine_of r = \<lparr>reg = r, clock = 0, trace = [], oom = []\<rparr>"

text \<open>Entry 1 is a PCI bridge; in the second registry it is configured.\<close>

definition ex_bridge :: registry where
  "ex_bridge =
     \<lparr>dt_root = None,
      entries = (\<lambda>_. blank_entry)(1 := blank_entry\<lparr>table := [''class-code'' \<mapsto> 0]\<rparr>),
      heap = [OSData [0x00, 0x04, 0x06, 0x00], OSBoolean True]\<rparr>"

definition ex_bridge_ready :: registry where
  "ex_bridge_ready =
     \<lparr>dt_root = None,
      entries = (\<lambda>_. blank_entry)
        (1 := blank_entry\<lparr>table := [''class-code'' \<mapsto> 0, ''IOPCIConfigured'' \<mapsto> 1]\<rparr>),
      heap = [OSData [0x00, 0x04, 0x06, 0x00], OSBoolean True]\<rparr>"

text \<open>
  Entry 5 is a storage device; in the second registry it is resourced. Entry 1 of
  \<open>ex_bridge\<close> has no \<open>IOPCIResourced\<close> property at all.
\<close>

definition ex_device :: registry where
  "ex_device =
     \<lparr>dt_root = None, entries = (\<lambda>_. blank_entry), heap = [OSBoolean True]\<rparr>"

definition ex_device_ready :: registry where
  "ex_device_ready =
     \<lparr>dt_root = None,
      entries = (\<lambda>_. blank_entry)(5 := blank_entry\<lparr>table := [''IOPCIResourced'' \<mapsto> 0]\<rparr>),
      heap = [OSBoolean True]\<rparr>"

text \<open>
  Entry 7 is a disk with an icon dictionary (object 2) and protocol characteristics
  (object 3) that say it is external.
\<close>

definition ex_media :: registry where
  "ex_media =
     \<lparr>dt_root = None,
      entries = (\<lambda>_. blank_entry)
        (7 := blank_entry\<lparr>table :=
           [''IOMediaIcon'' \<mapsto> 2, ''Protocol Characteristics'' \<mapsto> 3]\<rparr>),
      heap = [OSString ''com.apple.iokit.IOStorageFamily'', OSString ''External.icns'',
              OSDictionary [(''CFBundleIdentifier'', 0), (''IOBundleResourceFile'', 1)],
              OSDictionary [(''Physical Interconnect'', 4),
                            (''Physical Interconnect Location'', 5)],
              OSString ''PCI-Express'', OSString ''External'']\<rparr>"

text \<open>The same with an allocation plan: the first allocation succeeds, the second fails.\<close>

definition ex_media_low :: machine where
  "ex_media_low = \<lparr>reg = ex_media, clock = 0, trace = [], oom = [False, True]\<rparr>"

text \<open>
  Device trees: two PCI roots, both configured; one PCI root after another node; no PCI
  root.
\<close>

definition ex_two_roots :: registry where
  "ex_two_roots =
     \<lparr>dt_root = Some 0,
      entries = (\<lambda>_. blank_entry)
        (0 := blank_entry\<lparr>entry_name := Some ''device-tree'', dt_children := [2, 3]\<rparr>,
         2 := blank_entry\<lparr>entry_name := Some ''PCI0'', table := [''IOPCIConfigured'' \<mapsto> 0]\<rparr>,
         3 := blank_entry\<lparr>entry_name := Some ''PCI1'', table := [''IOPCIConfigured'' \<mapsto> 0]\<rparr>),
      heap = [OSBoolean True]\<rparr>"

definition ex_one_root :: registry where
  "ex_one_root =
     \<lparr>dt_root = Some 0,
      entries = (\<lambda>_. blank_entry)
        (0 := blank_entry\<lparr>entry_name := Some ''device-tree'', dt_children := [2, 3]\<rparr>,
         2 := blank_entry\<lparr>entry_name := Some ''cpus''\<rparr>,
         3 := blank_entry\<lparr>entry_name := Some ''PCI0'', table := [''IOPCIConfigured'' \<mapsto> 0]\<rparr>),
      heap = [OSBoolean True]\<rparr>"

definition ex_no_root :: registry where
  "ex_no_root =
     \<lparr>dt_root = Some 0,
      entries = (\<lambda>_. blank_entry)
        (0 := blank_entry\<lparr>entry_name := Some ''device-tree'', dt_children := [2]\<rparr>,
         2 := blank_entry\<lparr>entry_name := Some ''cpus''\<rparr>),
      heap = []\<rparr>"

text \<open>
  Entry 5 is a resourced drive; in the service plane its driver is entry 6, and entry 7
  is attached to the driver.
\<close>

definition ex_drive :: registry where
  "ex_drive =
     \<lparr>dt_root = None,
      entries = (\<lambda>_. blank_entry)
        (5 := blank_entry\<lparr>table := [''IOPCIResourced'' \<mapsto> 0], svc_children := [6]\<rparr>,
         6 := blank_entry\<lparr>svc_children := [7]\<rparr>),
      heap = [OSBoolean True]\<rparr>"

section \<open>The effect of the driver on the values\<close>

text \<open>
  What a stretch of the run does to the values: it writes the cells \<open>cs\<close>, the last
  one of the list first, and leaves the shape of the registry, the pointers and every
  other property as they are.
\<close>

definition effect :: "machine \<Rightarrow> machine \<Rightarrow> (entry_id \<times> cell) list \<Rightarrow> bool" where
  "effect m m' cs =
     (well_formed m' \<and> oom m' = [] \<and> heap_grows m m' \<and> same_shape m m'
      \<and> (\<forall>e k. k \<notin> range cell_key \<longrightarrow> getProperty e k m' = getProperty e k m)
      \<and> (\<forall>n. property_state n m' = run_cells n cs (property_state n m)))"

text \<open>The cells of one \<open>updateOtherProperties\<close>, the last write first.\<close>

definition update_cells :: "entry_id \<Rightarrow> (entry_id \<times> cell) list" where
  "update_cells e = [(e, BuiltIn), (e, Protocol), (e, Icon), (e, Location)]"

text \<open>The cells of the loop over the driver entries.\<close>

definition driver_cells :: "entry_id \<Rightarrow> entry_id list \<Rightarrow> (entry_id \<times> cell) list" where
  "driver_cells e ds = concat (map update_cells (rev (filter (\<lambda>d. d \<noteq> e) ds)))"

text \<open>The cells of one \<open>internalizeDevice\<close> in a registry that nothing else changes.\<close>

definition script_of :: "entry_id \<Rightarrow> machine \<Rightarrow> (entry_id \<times> cell) list" where
  "script_of e m =
     (if isTrue ''IOPCIResourced'' e m
      then (case iterateServicePlane (reg m) e of
              None \<Rightarrow> []
            | Some ds \<Rightarrow>
                (driver_cells e ds @ update_cells e) @ (driver_cells e ds @ update_cells e)
                  @ (driver_cells e ds @ update_cells e))
      else [])
     @ [(e, BuiltIn)]"

text \<open>An enumeration subsystem that changes nothing.\<close>

definition static :: "environment \<Rightarrow> bool" where
  "static env = (\<forall>t d r. env t d r = r)"


text \<open>
  What one pass over the device \<open>e\<close> and the entries \<open>ds\<close> has written, from the
  machine \<open>s\<close> before it to the machine \<open>p\<close> after it: each of the four properties
  of \<open>e\<close> and of every entry of \<open>ds\<close> has the value that \<open>cell_value\<close> gives
  it, at every depth, and the four properties of the other entries have the value they had.
\<close>

definition pass_written :: "entry_id \<Rightarrow> entry_id list \<Rightarrow> machine \<Rightarrow> machine \<Rightarrow> bool" where
  "pass_written e ds s p =
     (\<forall>n x c. property_state n p x (cell_key c)
        = (if x = e \<or> x \<in> set ds then cell_value n c (property_state n s x (cell_key c))
           else property_state n s x (cell_key c)))"

section \<open>More concrete registries\<close>

text \<open>
  Entry 7 is a disk whose \<open>Protocol Characteristics\<close> and \<open>IOMediaIcon\<close> are strings
  (objects 0 and 1), not dictionaries.
\<close>

definition ex_odd :: registry where
  "ex_odd =
     \<lparr>dt_root = None,
      entries = (\<lambda>_. blank_entry)
        (7 := blank_entry\<lparr>table :=
           [''Protocol Characteristics'' \<mapsto> 0, ''IOMediaIcon'' \<mapsto> 1]\<rparr>),
      heap = [OSString ''SATA'', OSString ''External.icns'']\<rparr>"

text \<open>
  A bridge, entry 10, with four children: entry 11 a configured bridge with one child,
  the NVMe controller 13; entry 12 an NVMe controller; entry 14 a display controller;
  entry 15 with a \<open>class-code\<close> that is a string. The two controllers are resourced and
  have no driver attached.
\<close>

definition ex_tree :: registry where
  "ex_tree =
     \<lparr>dt_root = None,
      entries = (\<lambda>_. blank_entry)
        (10 := blank_entry\<lparr>dt_children := [11, 12, 14, 15]\<rparr>,
         11 := blank_entry\<lparr>table := [''class-code'' \<mapsto> 0, ''IOPCIConfigured'' \<mapsto> 1],
                            dt_children := [13]\<rparr>,
         12 := blank_entry\<lparr>table := [''class-code'' \<mapsto> 2, ''IOPCIResourced'' \<mapsto> 1]\<rparr>,
         13 := blank_entry\<lparr>table := [''class-code'' \<mapsto> 2, ''IOPCIResourced'' \<mapsto> 1]\<rparr>,
         14 := blank_entry\<lparr>table := [''class-code'' \<mapsto> 3]\<rparr>,
         15 := blank_entry\<lparr>table := [''class-code'' \<mapsto> 4]\<rparr>),
      heap = [OSData [0x00, 0x04, 0x06, 0x00], OSBoolean True, OSData [0x02, 0x08, 0x01, 0x00],
              OSData [0x00, 0x00, 0x03, 0x00], OSString ''060400'']\<rparr>"

section \<open>The walk, child by child\<close>

text \<open>\<open>f\<close> on the entries of a list in order, each from where the last one ended.\<close>

fun each ::
  "(entry_id \<Rightarrow> machine \<Rightarrow> fault + machine) \<Rightarrow> entry_id list \<Rightarrow> machine \<Rightarrow> fault + machine"
where
  "each f [] m = Inr m"
| "each f (c # cs) m = (case f c m of Inl x \<Rightarrow> Inl x | Inr m' \<Rightarrow> each f cs m')"

text \<open>
  What the classification code of a child makes of it. A \<open>class-code\<close> that is absent or
  not a blob makes it neither a storage controller nor a bridge; a blob of fewer than four
  bytes cannot be read.
\<close>

datatype kind = Storage | Bridge | Neither

definition classify :: "classCode \<Rightarrow> entry_id \<Rightarrow> machine \<Rightarrow> fault + kind" where
  "classify cc c m =
     (case getProperty c ''class-code'' m of
        None \<Rightarrow> Inr Neither
      | Some a \<Rightarrow>
          (case castData m a of
             None \<Rightarrow> Inr Neither
           | Some bs \<Rightarrow>
               (case read_u32 bs of
                  None \<Rightarrow> Inl InvalidRead
                | Some code \<Rightarrow>
                    Inr (if code \<in> {SATADevice cc, NVMeDevice cc, RAIDDevice cc} then Storage
                         else if code = PCIBridge cc then Bridge else Neither))))"

text \<open>
  The rule for one child of a bridge: a storage controller goes to \<open>internalizeDevice\<close>;
  for a bridge the bounded wait is made and, only when it leaves \<open>timeout\<close> positive, the
  bridge is walked; any other child is skipped.
\<close>

definition route_child ::
  "nat \<Rightarrow> classCode \<Rightarrow> environment \<Rightarrow> entry_id \<Rightarrow> machine \<Rightarrow> fault + machine" where
  "route_child fuel cc env c m =
     (case classify cc c m of
        Inl f \<Rightarrow> Inl f
      | Inr Storage \<Rightarrow> internalizeDevice env c m
      | Inr Bridge \<Rightarrow>
          (case waitFlag env ''IOPCIConfigured'' c 1000 m of
             (timeout, m1) \<Rightarrow> if timeout > 0 then recurseBridge fuel cc env c m1 else Inr m1)
      | Inr Neither \<Rightarrow> Inr m)"

text \<open>
  The rule for one selected root: the selection is logged, the root is polled every 10 ms
  until it is configured, with no bound, and then walked.
\<close>

definition serve_root ::
  "nat \<Rightarrow> classCode \<Rightarrow> environment \<Rightarrow> entry_id \<Rightarrow> machine \<Rightarrow> fault + machine" where
  "serve_root fuel cc env c m =
     (case waitRootConfigured env c (emit (FoundRoot c) m) of
        None \<Rightarrow> Inl NoReturn
      | Some m1 \<Rightarrow> recurseBridge fuel cc env c m1)"

section \<open>The bounded waits\<close>

lemma polls_0: "polls env 0 m = m"
  by (simp add: polls_def)

lemma polls_Suc: "polls env (Suc k) m = polls env k (IOSleep env 10 m)"
  by (simp add: polls_def funpow_swap1)

lemma polls_Suc': "polls env (Suc k) m = IOSleep env 10 (polls env k m)"
  by (simp add: polls_def)

lemma trace_polls: "trace (polls env k m) = trace m @ replicate k (Sleep 10)"
  by (induction k) (simp_all add: polls_0 polls_Suc' IOSleep_def replicate_append_same)

lemma clock_polls: "clock (polls env k m) = clock m + 10 * k"
  by (induction k) (simp_all add: polls_0 polls_Suc' IOSleep_def)

lemma oom_polls: "oom (polls env k m) = oom m"
  by (induction k) (simp_all add: polls_0 polls_Suc' IOSleep_def)

lemma reg_polls_switch:
  "reg (polls (env_switch T r1) k m) = (if 0 < k \<and> T \<le> clock m + 10 * k then r1 else reg m)"
  by (induction k) (auto simp: polls_0 polls_Suc' IOSleep_def env_switch_def clock_polls)

lemma reg_polls_static: "(\<And>t d r. env t d r = r) \<Longrightarrow> reg (polls env k m) = reg m"
  by (induction k) (auto simp: polls_0 polls_Suc' IOSleep_def)

lemma isTrue_cong: "reg m = reg m' \<Longrightarrow> isTrue key e m = isTrue key e m'"
  by (simp add: isTrue_def getProperty_def object_at_def split: option.splits)

declare waitFlag.simps [simp del]

lemma waitFlag_found:
  "\<forall>j<k. \<not> isTrue key e (polls env j m) \<Longrightarrow> isTrue key e (polls env k m) \<Longrightarrow> int k \<le> n
   \<Longrightarrow> waitFlag env key e n m = (n - int k, polls env k m)"
proof (induction k arbitrary: n m)
  case 0
  then show ?case by (simp add: polls_0 waitFlag.simps)
next
  case (Suc k)
  have nf: "\<not> isTrue key e m"
    using Suc.prems(1) [rule_format, of 0] by (simp add: polls_0)
  have h1: "\<forall>j<k. \<not> isTrue key e (polls env j (IOSleep env 10 m))"
    using Suc.prems(1) by (auto simp: polls_Suc dest: spec [where x = "Suc j" for j])
  have h2: "isTrue key e (polls env k (IOSleep env 10 m))"
    using Suc.prems(2) by (simp add: polls_Suc)
  have "waitFlag env key e (n - 1) (IOSleep env 10 m)
          = (n - 1 - int k, polls env k (IOSleep env 10 m))"
    using Suc.IH [OF h1 h2] Suc.prems(3) by simp
  moreover have "waitFlag env key e n m = waitFlag env key e (n - 1) (IOSleep env 10 m)"
    using nf Suc.prems(3) by (subst waitFlag.simps) simp
  ultimately show ?case by (simp add: polls_Suc)
qed

lemma waitFlag_never:
  "\<forall>j\<le>k. \<not> isTrue key e (polls env j m)
   \<Longrightarrow> waitFlag env key e (int k) m = (-1, polls env k m)"
proof (induction k arbitrary: m)
  case 0
  then show ?case by (simp add: polls_0 waitFlag.simps)
next
  case (Suc k)
  have nf: "\<not> isTrue key e m"
    using Suc.prems [rule_format, of 0] by (simp add: polls_0)
  have h1: "\<forall>j\<le>k. \<not> isTrue key e (polls env j (IOSleep env 10 m))"
    using Suc.prems by (auto simp: polls_Suc dest: spec [where x = "Suc j" for j])
  have "waitFlag env key e (int (Suc k)) m = waitFlag env key e (int k) (IOSleep env 10 m)"
    using nf by (subst waitFlag.simps) simp
  then show ?case using Suc.IH [OF h1] by (simp add: polls_Suc)
qed

lemma waitFlag_budget:
  assumes "\<forall>j<n. \<not> isTrue key e (polls env j m)"
  shows "\<exists>t\<le>0. waitFlag env key e (int n) m = (t, polls env n m)"
proof (cases "isTrue key e (polls env n m)")
  case True
  from waitFlag_found [OF assms True, of "int n"] show ?thesis by simp
next
  case False
  with assms have "\<forall>j\<le>n. \<not> isTrue key e (polls env j m)"
    by (auto simp: le_less)
  from waitFlag_never [OF this] show ?thesis by simp
qed

lemma waitFlag_timeout_iff:
  "(fst (waitFlag env key e (int n) m) \<le> 0) = (\<forall>k<n. \<not> isTrue key e (polls env k m))"
proof
  assume le: "fst (waitFlag env key e (int n) m) \<le> 0"
  show "\<forall>k<n. \<not> isTrue key e (polls env k m)"
  proof (rule ccontr)
    assume "\<not> (\<forall>k<n. \<not> isTrue key e (polls env k m))"
    then obtain k0 where k0: "k0 < n" "isTrue key e (polls env k0 m)" by blast
    define k where "k = (LEAST k. isTrue key e (polls env k m))"
    have kt: "isTrue key e (polls env k m)"
      unfolding k_def using k0(2) by (rule LeastI)
    have kl: "\<forall>j<k. \<not> isTrue key e (polls env j m)"
      unfolding k_def using not_less_Least by blast
    have kn: "k < n"
      using k0 Least_le [of "\<lambda>k. isTrue key e (polls env k m)" k0] by (simp add: k_def)
    from waitFlag_found [OF kl kt, of "int n"] kn le show False by simp
  qed
next
  assume "\<forall>k<n. \<not> isTrue key e (polls env k m)"
  from waitFlag_budget [OF this] show "fst (waitFlag env key e (int n) m) \<le> 0" by auto
qed

lemma bridge_child_unfold:
  assumes "getProperty c ''class-code'' m = Some a" "castData m a = Some bs"
    and "read_u32 bs = Some (PCIBridge cc)"
    and "PCIBridge cc \<notin> {SATADevice cc, NVMeDevice cc, RAIDDevice cc}"
  shows "bridgeChildren fuel cc env (c # rest) m =
          (case waitFlag env ''IOPCIConfigured'' c 1000 m of
             (timeout, m1) \<Rightarrow>
               if timeout > 0
               then (case recurseBridge fuel cc env c m1 of
                       Inl f \<Rightarrow> Inl f
                     | Inr m2 \<Rightarrow> bridgeChildren fuel cc env rest m2)
               else bridgeChildren fuel cc env rest m1)"
  using assms by simp

declare setBuiltIn.simps(2) [simp del]
declare updateOtherProperties.simps(2) [simp del]

lemma setBuiltIn_written:
  assumes "take 1 (oom m) \<noteq> [True]"
  shows "\<exists>a. getProperty e ''built-in'' (setBuiltIn (Some e) m) = Some a
            \<and> object_at (setBuiltIn (Some e) m) a = Some (OSData [1])"
  using assms
  by (cases "oom m")
    (auto simp: setBuiltIn.simps new_object_def try_alloc_def setProperty_def getProperty_def
      object_at_def)

lemma setBuiltIn_trace: "trace (setBuiltIn p m) = trace m"
  by (cases p; cases "oom m")
    (auto simp: setBuiltIn.simps new_object_def try_alloc_def setProperty_def
      split: bool.splits)



text \<open>
  C4. A child with the bridge class code is entered only from a machine in which its
  \<open>IOPCIConfigured\<close> flag is true: the one of the first poll, among the first 1000,
  that sees the flag. When none of these 1000 polls sees it, the bridge is not entered:
  the walk goes on with the siblings from the machine after 1000 sleeps of 10 ms, in
  which nothing but the sleeps has happened.
\<close>

theorem bridge_readiness:
  assumes "getProperty c ''class-code'' m = Some a" "castData m a = Some bs"
    and "read_u32 bs = Some (PCIBridge cc)"
    and "PCIBridge cc \<notin> {SATADevice cc, NVMeDevice cc, RAIDDevice cc}"
  shows "(\<forall>k<1000. (\<forall>j<k. \<not> isTrue ''IOPCIConfigured'' c (polls env j m))
              \<and> isTrue ''IOPCIConfigured'' c (polls env k m) \<longrightarrow>
            bridgeChildren fuel cc env (c # rest) m =
              (case recurseBridge fuel cc env c (polls env k m) of
                 Inl f \<Rightarrow> Inl f
               | Inr m2 \<Rightarrow> bridgeChildren fuel cc env rest m2))
         \<and> ((\<forall>k<1000. \<not> isTrue ''IOPCIConfigured'' c (polls env k m)) \<longrightarrow>
            bridgeChildren fuel cc env (c # rest) m =
              bridgeChildren fuel cc env rest (polls env 1000 m)
            \<and> trace (polls env 1000 m) = trace m @ replicate 1000 (Sleep 10))"
proof (intro conjI allI impI)
  fix k :: nat
  assume k: "k < 1000"
    and h: "(\<forall>j<k. \<not> isTrue ''IOPCIConfigured'' c (polls env j m))
              \<and> isTrue ''IOPCIConfigured'' c (polls env k m)"
  have "waitFlag env ''IOPCIConfigured'' c 1000 m = (1000 - int k, polls env k m)"
    using waitFlag_found [of k "''IOPCIConfigured''" c env m 1000] h k by simp
  then show "bridgeChildren fuel cc env (c # rest) m =
              (case recurseBridge fuel cc env c (polls env k m) of
                 Inl f \<Rightarrow> Inl f
               | Inr m2 \<Rightarrow> bridgeChildren fuel cc env rest m2)"
    using k unfolding bridge_child_unfold [OF assms] by simp
next
  assume "\<forall>k<1000. \<not> isTrue ''IOPCIConfigured'' c (polls env k m)"
  from waitFlag_budget [OF this] obtain t where
    "t \<le> 0" "waitFlag env ''IOPCIConfigured'' c 1000 m = (t, polls env 1000 m)" by auto
  then show "bridgeChildren fuel cc env (c # rest) m =
              bridgeChildren fuel cc env rest (polls env 1000 m)"
    unfolding bridge_child_unfold [OF assms] by simp
next
  show "trace (polls env 1000 m) = trace m @ replicate 1000 (Sleep 10)"
    by (rule trace_polls)
qed

theorem bridge_readiness_witness:
  "bridgeChildren 1 pci_codes env_idle [1] (machine_of ex_bridge_ready)
     = Inr (emit (Recurse 1) (machine_of ex_bridge_ready))
   \<and> bridgeChildren 0 pci_codes env_idle [1] (machine_of ex_bridge)
     = Inr (polls env_idle 1000 (machine_of ex_bridge))
   \<and> trace (polls env_idle 1000 (machine_of ex_bridge)) = replicate 1000 (Sleep 10)"
proof -
  have ready: "isTrue ''IOPCIConfigured'' 1 (polls env_idle 0 (machine_of ex_bridge_ready))"
    by (simp add: polls_0 isTrue_def getProperty_def object_at_def machine_of_def
        ex_bridge_ready_def)
  have first: "bridgeChildren 1 pci_codes env_idle [1] (machine_of ex_bridge_ready)
                 = Inr (emit (Recurse 1) (machine_of ex_bridge_ready))"
    using ready
      bridge_readiness [of 1 "machine_of ex_bridge_ready" 0 "[0x00, 0x04, 0x06, 0x00]"
        pci_codes env_idle 1 "[]", THEN conjunct1, rule_format, of 0]
    by (simp add: polls_0 getProperty_def castData_def object_at_def read_u32_def
        machine_of_def ex_bridge_ready_def pci_codes_def getChildIterator_def try_alloc_def
        emit_def blank_entry_def)
  have never: "\<forall>k<1000. \<not> isTrue ''IOPCIConfigured'' 1 (polls env_idle k (machine_of ex_bridge))"
  proof (intro allI impI)
    fix k :: nat
    have "reg (polls env_idle k (machine_of ex_bridge)) = reg (machine_of ex_bridge)"
      by (rule reg_polls_static) (simp add: env_idle_def)
    from isTrue_cong [OF this]
    show "\<not> isTrue ''IOPCIConfigured'' 1 (polls env_idle k (machine_of ex_bridge))"
      by (simp add: isTrue_def getProperty_def machine_of_def ex_bridge_def)
  qed
  have second: "bridgeChildren 0 pci_codes env_idle [1] (machine_of ex_bridge)
                  = Inr (polls env_idle 1000 (machine_of ex_bridge))
                \<and> trace (polls env_idle 1000 (machine_of ex_bridge)) = replicate 1000 (Sleep 10)"
    using never
      bridge_readiness [of 1 "machine_of ex_bridge" 0 "[0x00, 0x04, 0x06, 0x00]"
        pci_codes env_idle 0 "[]", THEN conjunct2]
    by (simp add: getProperty_def castData_def object_at_def read_u32_def
        machine_of_def ex_bridge_def pci_codes_def)
  from first second show ?thesis by simp
qed

lemma internalizeDevice_timeout:
  assumes "\<forall>k<2000. \<not> isTrue ''IOPCIResourced'' e
              (polls env k (setBuiltIn (Some e) (emit (Internalize e) m)))"
  shows "internalizeDevice env e m
           = Inr (polls env 2000 (setBuiltIn (Some e) (emit (Internalize e) m)))"
proof -
  from waitFlag_budget [OF assms] obtain t where
    "t \<le> 0"
    "waitFlag env ''IOPCIResourced'' e 2000 (setBuiltIn (Some e) (emit (Internalize e) m))
       = (t, polls env 2000 (setBuiltIn (Some e) (emit (Internalize e) m)))"
    by auto
  then show ?thesis by (simp add: internalizeDevice_def)
qed


text \<open>
  C10. With a budget of \<open>n\<close>, the loop leaves \<open>timeout\<close> at most 0 exactly when none
  of the first \<open>n\<close> polls (those made while the counter is positive) sees the flag true.
  When the flag is first seen by the poll made after the counter has come down to zero,
  \<open>timeout\<close> is 0: the device gets no pass (budget 2000) and the bridge is not entered
  (budget 1000), although the flag is true in the machine that is returned.
\<close>

theorem timeout_boundary:
  "((fst (waitFlag env key e (int n) m) \<le> 0) = (\<forall>k<n. \<not> isTrue key e (polls env k m)))
   \<and> ((\<forall>k<n. \<not> isTrue key e (polls env k m)) \<and> isTrue key e (polls env n m) \<longrightarrow>
        waitFlag env key e (int n) m = (0, polls env n m))
   \<and> ((\<forall>k<2000. \<not> isTrue ''IOPCIResourced'' e
           (polls env k (setBuiltIn (Some e) (emit (Internalize e) m))))
        \<and> isTrue ''IOPCIResourced'' e
           (polls env 2000 (setBuiltIn (Some e) (emit (Internalize e) m))) \<longrightarrow>
        internalizeDevice env e m
          = Inr (polls env 2000 (setBuiltIn (Some e) (emit (Internalize e) m))))
   \<and> (getProperty e ''class-code'' m = Some a \<and> castData m a = Some bs
        \<and> read_u32 bs = Some (PCIBridge cc)
        \<and> PCIBridge cc \<notin> {SATADevice cc, NVMeDevice cc, RAIDDevice cc}
        \<and> (\<forall>k<1000. \<not> isTrue ''IOPCIConfigured'' e (polls env k m))
        \<and> isTrue ''IOPCIConfigured'' e (polls env 1000 m) \<longrightarrow>
        bridgeChildren fuel cc env (e # rest) m
          = bridgeChildren fuel cc env rest (polls env 1000 m))"
proof (intro conjI impI)
  show "(fst (waitFlag env key e (int n) m) \<le> 0) = (\<forall>k<n. \<not> isTrue key e (polls env k m))"
    by (rule waitFlag_timeout_iff)
next
  assume "(\<forall>k<n. \<not> isTrue key e (polls env k m)) \<and> isTrue key e (polls env n m)"
  then show "waitFlag env key e (int n) m = (0, polls env n m)"
    using waitFlag_found [of n key e env m "int n"] by simp
next
  assume "(\<forall>k<2000. \<not> isTrue ''IOPCIResourced'' e
           (polls env k (setBuiltIn (Some e) (emit (Internalize e) m))))
        \<and> isTrue ''IOPCIResourced'' e
           (polls env 2000 (setBuiltIn (Some e) (emit (Internalize e) m)))"
  then show "internalizeDevice env e m
          = Inr (polls env 2000 (setBuiltIn (Some e) (emit (Internalize e) m)))"
    by (intro internalizeDevice_timeout) simp
next
  assume h: "getProperty e ''class-code'' m = Some a \<and> castData m a = Some bs
        \<and> read_u32 bs = Some (PCIBridge cc)
        \<and> PCIBridge cc \<notin> {SATADevice cc, NVMeDevice cc, RAIDDevice cc}
        \<and> (\<forall>k<1000. \<not> isTrue ''IOPCIConfigured'' e (polls env k m))
        \<and> isTrue ''IOPCIConfigured'' e (polls env 1000 m)"
  then have w: "waitFlag env ''IOPCIConfigured'' e 1000 m = (0, polls env 1000 m)"
    using waitFlag_found [of 1000 "''IOPCIConfigured''" e env m 1000] by simp
  from h have u: "bridgeChildren fuel cc env (e # rest) m =
          (case waitFlag env ''IOPCIConfigured'' e 1000 m of
             (timeout, m1) \<Rightarrow>
               if timeout > 0
               then (case recurseBridge fuel cc env e m1 of
                       Inl f \<Rightarrow> Inl f
                     | Inr m2 \<Rightarrow> bridgeChildren fuel cc env rest m2)
               else bridgeChildren fuel cc env rest m1)"
    by (intro bridge_child_unfold) auto
  show "bridgeChildren fuel cc env (e # rest) m
          = bridgeChildren fuel cc env rest (polls env 1000 m)"
    unfolding u w by simp
qed




theorem timeout_boundary_witness:
  "isTrue ''IOPCIResourced'' 5
     (polls (env_switch 20000 ex_device_ready) 2000
        (setBuiltIn (Some 5) (emit (Internalize 5) (machine_of ex_device))))
   \<and> internalizeDevice (env_switch 20000 ex_device_ready) 5 (machine_of ex_device)
     = Inr (polls (env_switch 20000 ex_device_ready) 2000
             (setBuiltIn (Some 5) (emit (Internalize 5) (machine_of ex_device))))
   \<and> isTrue ''IOPCIConfigured'' 1
       (polls (env_switch 10000 ex_bridge_ready) 1000 (machine_of ex_bridge))
   \<and> bridgeChildren 1 pci_codes (env_switch 10000 ex_bridge_ready) [1] (machine_of ex_bridge)
     = Inr (polls (env_switch 10000 ex_bridge_ready) 1000 (machine_of ex_bridge))"
proof -
  let ?d = "setBuiltIn (Some 5) (emit (Internalize 5) (machine_of ex_device))"
  let ?envd = "env_switch 20000 ex_device_ready"
  let ?b = "machine_of ex_bridge"
  let ?envb = "env_switch 10000 ex_bridge_ready"
  have d: "?d = \<lparr>reg = ex_device\<lparr>entries := (entries ex_device)
                (5 := (entries ex_device 5)\<lparr>table := (table (entries ex_device 5))(''built-in'' \<mapsto> 1)\<rparr>),
                heap := heap ex_device @ [OSData [1]]\<rparr>,
              clock = 0, trace = [Internalize 5], oom = []\<rparr>"
    by (simp add: setBuiltIn.simps machine_of_def emit_def new_object_def try_alloc_def
        setProperty_def ex_device_def)
  have d_clock: "clock ?d = 0"
    unfolding d by simp
  have d_now: "\<not> isTrue ''IOPCIResourced'' 5 ?d"
    unfolding d by (simp add: isTrue_def getProperty_def ex_device_def blank_entry_def)
  have d_never: "\<forall>k<2000. \<not> isTrue ''IOPCIResourced'' 5 (polls ?envd k ?d)"
  proof (intro allI impI)
    fix k :: nat
    assume "k < 2000"
    then have "reg (polls ?envd k ?d) = reg ?d"
      by (simp add: reg_polls_switch d_clock)
    then have "isTrue ''IOPCIResourced'' 5 (polls ?envd k ?d) = isTrue ''IOPCIResourced'' 5 ?d"
      by (rule isTrue_cong)
    with d_now show "\<not> isTrue ''IOPCIResourced'' 5 (polls ?envd k ?d)"
      by blast
  qed
  have ready_d: "isTrue ''IOPCIResourced'' 5 (machine_of ex_device_ready)"
    by (simp add: isTrue_def getProperty_def object_at_def machine_of_def ex_device_ready_def)
  have "reg (polls ?envd 2000 ?d) = reg (machine_of ex_device_ready)"
    by (simp add: reg_polls_switch d_clock machine_of_def)
  then have "isTrue ''IOPCIResourced'' 5 (polls ?envd 2000 ?d)
               = isTrue ''IOPCIResourced'' 5 (machine_of ex_device_ready)"
    by (rule isTrue_cong)
  with ready_d have d_last: "isTrue ''IOPCIResourced'' 5 (polls ?envd 2000 ?d)"
    by blast
  have b_clock: "clock ?b = 0"
    by (simp add: machine_of_def)
  have b_now: "\<not> isTrue ''IOPCIConfigured'' 1 ?b"
    by (simp add: isTrue_def getProperty_def machine_of_def ex_bridge_def)
  have b_never: "\<forall>k<1000. \<not> isTrue ''IOPCIConfigured'' 1 (polls ?envb k ?b)"
  proof (intro allI impI)
    fix k :: nat
    assume "k < 1000"
    then have "reg (polls ?envb k ?b) = reg ?b"
      by (simp add: reg_polls_switch b_clock)
    then have "isTrue ''IOPCIConfigured'' 1 (polls ?envb k ?b) = isTrue ''IOPCIConfigured'' 1 ?b"
      by (rule isTrue_cong)
    with b_now show "\<not> isTrue ''IOPCIConfigured'' 1 (polls ?envb k ?b)"
      by blast
  qed
  have ready_b: "isTrue ''IOPCIConfigured'' 1 (machine_of ex_bridge_ready)"
    by (simp add: isTrue_def getProperty_def object_at_def machine_of_def ex_bridge_ready_def)
  have "reg (polls ?envb 1000 ?b) = reg (machine_of ex_bridge_ready)"
    by (simp add: reg_polls_switch b_clock machine_of_def)
  then have "isTrue ''IOPCIConfigured'' 1 (polls ?envb 1000 ?b)
               = isTrue ''IOPCIConfigured'' 1 (machine_of ex_bridge_ready)"
    by (rule isTrue_cong)
  with ready_b have b_last: "isTrue ''IOPCIConfigured'' 1 (polls ?envb 1000 ?b)"
    by blast
  have code: "getProperty 1 ''class-code'' ?b = Some 0
      \<and> castData ?b 0 = Some [0x00, 0x04, 0x06, 0x00]
      \<and> read_u32 [0x00, 0x04, 0x06, 0x00] = Some (PCIBridge pci_codes)
      \<and> PCIBridge pci_codes \<notin> {SATADevice pci_codes, NVMeDevice pci_codes, RAIDDevice pci_codes}"
    by (simp add: getProperty_def castData_def object_at_def read_u32_def machine_of_def
        ex_bridge_def pci_codes_def)
  have dev: "internalizeDevice ?envd 5 (machine_of ex_device) = Inr (polls ?envd 2000 ?d)"
    using timeout_boundary [of ?envd "''IOPCIResourced''" 5 0 "machine_of ex_device"
        0 "[]" pci_codes 0 "[]"] d_never d_last
    by blast
  have "bridgeChildren 1 pci_codes ?envb [1] ?b
          = bridgeChildren 1 pci_codes ?envb [] (polls ?envb 1000 ?b)"
    using timeout_boundary [of ?envb "''IOPCIConfigured''" 1 0 ?b 0
        "[0x00, 0x04, 0x06, 0x00]" pci_codes 1 "[]"] b_never b_last code
    by blast
  then have br: "bridgeChildren 1 pci_codes ?envb [1] ?b = Inr (polls ?envb 1000 ?b)"
    by simp
  from dev br d_last b_last show ?thesis by blast
qed

subsection \<open>What the property updates do to the trace\<close>

lemma try_alloc_trace: "trace (snd (try_alloc m)) = trace m"
  by (simp add: try_alloc_def split: list.splits)

lemma try_alloc_reg: "reg (snd (try_alloc m)) = reg m"
  by (simp add: try_alloc_def split: list.splits)

lemma try_alloc_clock: "clock (snd (try_alloc m)) = clock m"
  by (simp add: try_alloc_def split: list.splits)

lemma try_alloc_plan: "oom m = [] \<Longrightarrow> try_alloc m = (True, m)"
  by (simp add: try_alloc_def)

lemma new_object_trace: "trace (snd (new_object obj m)) = trace m"
  by (simp add: new_object_def try_alloc_def split: list.splits bool.splits)

lemma new_object_clock: "clock (snd (new_object obj m)) = clock m"
  by (simp add: new_object_def try_alloc_def split: list.splits bool.splits)

lemma new_object_plan:
  "oom m = [] \<Longrightarrow>
     new_object obj m
       = (Some (length (heap (reg m))), m\<lparr>reg := (reg m)\<lparr>heap := heap (reg m) @ [obj]\<rparr>\<rparr>)"
  by (simp add: new_object_def try_alloc_def)

lemma setProperty_trace: "trace (setProperty e key a m) = trace m"
  by (simp add: setProperty_def)

lemma setProperty_clock: "clock (setProperty e key a m) = clock m"
  by (simp add: setProperty_def)

lemma setObject_trace: "trace (setObject d key a m) = trace m"
  by (simp add: setObject_def split: option.splits)

lemma setObject_clock: "clock (setObject d key a m) = clock m"
  by (simp add: setObject_def split: option.splits)

lemma setBuiltIn_clock: "clock (setBuiltIn p m) = clock m"
  by (cases p; cases "new_object (OSData [1]) m"; cases "fst (new_object (OSData [1]) m)")
    (use new_object_clock [of "OSData [1]" m] in
      \<open>auto simp: setBuiltIn.simps setProperty_clock\<close>)

lemma new_object_trace_eq: "new_object obj m = (r, m') \<Longrightarrow> trace m' = trace m"
  using new_object_trace [of obj m] by simp

lemma new_object_clock_eq: "new_object obj m = (r, m') \<Longrightarrow> clock m' = clock m"
  using new_object_clock [of obj m] by simp

lemma updateIcon_trace: "trace (updateIcon e ic m) = trace m"
  by (auto simp: updateIcon_def setProperty_trace setObject_trace
      split: option.splits prod.splits dest: new_object_trace_eq)

lemma updateProtocol_trace: "trace (updateProtocol e i m) = trace m"
  by (auto simp: updateProtocol_def setProperty_trace setObject_trace
      split: option.splits prod.splits dest: new_object_trace_eq)

lemma updateOtherProperties_trace:
  "trace (updateOtherProperties (Some e) m) = trace m @ [Update e]"
proof -
  obtain i m1 where 1: "new_object (OSString ''Internal'') (emit (Update e) m) = (i, m1)"
    by (cases "new_object (OSString ''Internal'') (emit (Update e) m)")
  obtain ic m2 where 2: "new_object (OSString ''Internal.icns'') m1 = (ic, m2)"
    by (cases "new_object (OSString ''Internal.icns'') m1")
  have t1: "trace m1 = trace m @ [Update e]"
    using new_object_trace [of "OSString ''Internal''" "emit (Update e) m"] 1
    by (simp add: emit_def)
  have t2: "trace m2 = trace m1"
    using new_object_trace [of "OSString ''Internal.icns''" m1] 2 by simp
  show ?thesis
    by (cases i; cases ic)
      (simp_all add: updateOtherProperties.simps 1 2 t1 t2 setBuiltIn_trace
        updateProtocol_trace updateIcon_trace setProperty_trace)
qed

lemma updateDrivers_trace:
  "trace (updateDrivers e ds m) = trace m @ map Update (filter (\<lambda>d. d \<noteq> e) ds)"
  by (induction ds arbitrary: m) (simp_all add: updateOtherProperties_trace)

lemma quiet_refl: "trace m' = trace m \<Longrightarrow> quiet_step m m'"
  by (simp add: quiet_step_def)

lemma quiet_trans: "quiet_step m m' \<Longrightarrow> quiet_step m' m'' \<Longrightarrow> quiet_step m m''"
  by (auto simp: quiet_step_def)

lemma quiet_polls: "quiet_step m (polls env k m)"
  by (auto simp: quiet_step_def trace_polls)

lemma quiet_IOSleep: "quiet_step m (IOSleep env d m)"
  by (simp add: quiet_step_def IOSleep_def)

lemma waitFlag_polls: "\<exists>k. snd (waitFlag env key e n m) = polls env k m"
proof (induction env key e n m rule: waitFlag.induct)
  case (1 env key e timeout m)
  show ?case
  proof (cases "\<not> isTrue key e m \<and> timeout > 0")
    case True
    with 1 obtain k where
      "snd (waitFlag env key e (timeout - 1) (IOSleep env 10 m)) = polls env k (IOSleep env 10 m)"
      by auto
    moreover have "waitFlag env key e timeout m
                     = waitFlag env key e (timeout - 1) (IOSleep env 10 m)"
      using True by (subst waitFlag.simps) simp
    ultimately have "snd (waitFlag env key e timeout m) = polls env (Suc k) m"
      by (simp add: polls_Suc)
    then show ?thesis ..
  next
    case False
    then have "snd (waitFlag env key e timeout m) = polls env 0 m"
      by (subst waitFlag.simps) (auto simp: polls_0)
    then show ?thesis ..
  qed
qed

lemma quiet_waitFlag: "waitFlag env key e n m = (t, m') \<Longrightarrow> quiet_step m m'"
  using waitFlag_polls [of env key e n m] quiet_polls by (metis snd_conv)

lemma quiet_updateOtherProperties: "quiet_step m (updateOtherProperties p m)"
  by (cases p) (auto simp: quiet_step_def updateOtherProperties_trace)

lemma quiet_updateDrivers: "quiet_step m (updateDrivers e ds m)"
  by (auto simp: quiet_step_def updateDrivers_trace)

lemma quiet_try_alloc: "try_alloc m = (b, m') \<Longrightarrow> quiet_step m m'"
  using try_alloc_trace [of m] by (simp add: quiet_step_def)

declare passes.simps [simp del]
declare rootLoop.simps [simp del]

lemma quiet_passes: "passes env e pass m = Inr m' \<Longrightarrow> quiet_step m m'"
proof (induction env e pass m rule: passes.induct)
  case (1 env e pass m)
  show ?case
  proof (cases "pass < 3")
    case False
    with "1.prems" have "m' = m" by (subst (asm) passes.simps) simp
    then show ?thesis by (simp add: quiet_refl)
  next
    case True
    obtain b m1 where a: "try_alloc (updateOtherProperties (Some e) m) = (b, m1)"
      by (cases "try_alloc (updateOtherProperties (Some e) m)")
    have q1: "quiet_step m m1"
      using quiet_updateOtherProperties quiet_try_alloc [OF a] by (rule quiet_trans)
    show ?thesis
    proof (cases b)
      case False
      let ?m2 = "if pass < 2 then IOSleep env 100 m1 else m1"
      from "1.prems" True a False have "passes env e (pass + 1) ?m2 = Inr m'"
        by (subst (asm) passes.simps) simp
      moreover from False have "b = False" by simp
      ultimately have "quiet_step ?m2 m'"
        using "1.IH"(2) [OF True a [symmetric]] by simp
      moreover have "quiet_step m1 ?m2"
        by (simp add: quiet_IOSleep quiet_refl)
      ultimately show ?thesis using q1 by (blast intro: quiet_trans)
    next
      case b: True
      from "1.prems" True a b obtain ds where ds: "iterateServicePlane (reg m1) e = Some ds"
        by (subst (asm) passes.simps) (auto split: option.splits)
      let ?m2 = "if pass < 2 then IOSleep env 100 (updateDrivers e ds m1)
                 else updateDrivers e ds m1"
      from "1.prems" True a b ds have "passes env e (pass + 1) ?m2 = Inr m'"
        by (subst (asm) passes.simps) simp
      moreover from b have "b = True" by simp
      ultimately have "quiet_step ?m2 m'"
        using "1.IH"(1) [OF True a [symmetric] _ ds] by simp
      moreover have "quiet_step m1 ?m2"
        using quiet_updateDrivers [of m1 e ds] quiet_IOSleep [of "updateDrivers e ds m1" env 100]
        by (auto intro: quiet_trans)
      ultimately show ?thesis using q1 by (blast intro: quiet_trans)
    qed
  qed
qed

lemma internalizeDevice_trace:
  assumes "internalizeDevice env e m = Inr m'"
  shows "\<exists>evs. trace m' = trace m @ Internalize e # evs \<and> (\<forall>r. FoundRoot r \<notin> set evs)"
proof -
  let ?m0 = "setBuiltIn (Some e) (emit (Internalize e) m)"
  obtain t m1 where w: "waitFlag env ''IOPCIResourced'' e 2000 ?m0 = (t, m1)"
    by (cases "waitFlag env ''IOPCIResourced'' e 2000 ?m0")
  have t0: "trace ?m0 = trace m @ [Internalize e]"
    by (simp add: setBuiltIn_trace emit_def)
  have "quiet_step ?m0 m1" using w by (rule quiet_waitFlag)
  moreover have "quiet_step m1 m'"
    using assms w by (auto simp: internalizeDevice_def quiet_refl quiet_passes split: if_splits)
  ultimately have "quiet_step ?m0 m'" by (rule quiet_trans)
  then show ?thesis by (auto simp: quiet_step_def t0)
qed

lemma quiet_internalizeDevice: "internalizeDevice env e m = Inr m' \<Longrightarrow> quiet_step m m'"
  using internalizeDevice_trace [of env e m m'] by (auto simp: quiet_step_def)


section \<open>The property updates\<close>

lemma heap_grows_refl: "heap (reg m') = heap (reg m) \<Longrightarrow> heap_grows m m'"
  by (simp add: heap_grows_def)

lemma heap_grows_trans: "heap_grows m m' \<Longrightarrow> heap_grows m' m'' \<Longrightarrow> heap_grows m m''"
  by (auto simp: heap_grows_def)

lemma heap_grows_length: "heap_grows m m' \<Longrightarrow> length (heap (reg m)) \<le> length (heap (reg m'))"
  by (auto simp: heap_grows_def)

lemma heap_grows_object:
  "heap_grows m m' \<Longrightarrow> object_at m a = Some obj \<Longrightarrow> object_at m' a = Some obj"
  by (auto simp: heap_grows_def object_at_def nth_append split: if_splits)

lemma heap_grows_old:
  "heap_grows m m' \<Longrightarrow> a < length (heap (reg m)) \<Longrightarrow> object_at m' a = object_at m a"
  by (auto simp: heap_grows_def object_at_def nth_append)

lemma heap_grows_cast:
  "heap_grows m m' \<Longrightarrow> castDictionary m a = Some kvs \<Longrightarrow> castDictionary m' a = Some kvs"
  by (auto simp: castDictionary_def split: option.splits osobject.splits
      dest: heap_grows_object)

lemma object_at_valid: "object_at m a = Some obj \<Longrightarrow> a < length (heap (reg m))"
  by (simp add: object_at_def split: if_splits)

subsection \<open>The steps of the update, one by one\<close>

lemma new_object_cases:
  "new_object obj m = (r, m') \<Longrightarrow>
     (r = None \<and> reg m' = reg m \<and> oom m = True # oom m') \<or>
     (r = Some (length (heap (reg m)))
        \<and> m' = m\<lparr>oom := tl (oom m), reg := (reg m)\<lparr>heap := heap (reg m) @ [obj]\<rparr>\<rparr>
        \<and> take 1 (oom m) \<noteq> [True])"
  by (cases "oom m") (auto simp: new_object_def try_alloc_def split: bool.splits)

lemma new_object_fail:
  "oom m = True # bs \<Longrightarrow> new_object obj m = (None, m\<lparr>oom := bs\<rparr>)"
  by (simp add: new_object_def try_alloc_def)

lemma new_object_grows: "new_object obj m = (r, m') \<Longrightarrow> heap_grows m m'"
  by (drule new_object_cases) (auto simp: heap_grows_def)

lemma new_object_entries: "new_object obj m = (r, m') \<Longrightarrow> entries (reg m') = entries (reg m)"
  by (drule new_object_cases) auto

lemma new_object_oom: "new_object obj m = (r, m') \<Longrightarrow> oom m = [] \<Longrightarrow> oom m' = []"
  by (drule new_object_cases) auto

lemma setProperty_heap: "heap (reg (setProperty e key a m)) = heap (reg m)"
  by (simp add: setProperty_def)

lemma setProperty_oom: "oom (setProperty e key a m) = oom m"
  by (simp add: setProperty_def)

lemma setProperty_get:
  "getProperty e' k (setProperty e key a m)
     = (if e' = e \<and> k = key then Some a else getProperty e' k m)"
  by (simp add: setProperty_def getProperty_def)

lemma setProperty_object: "object_at (setProperty e key a m) x = object_at m x"
  by (simp add: setProperty_def object_at_def)

lemma setProperty_cast: "castDictionary (setProperty e key a m) x = castDictionary m x"
  by (simp add: castDictionary_def setProperty_object)

lemma store_copy:
  assumes "new_object (OSDictionary kvs) m = (Some d, m')"
  shows "setProperty e key d (setObject d k v m')
           = setProperty e key (length (heap (reg m)))
               (m\<lparr>oom := tl (oom m),
                  reg := (reg m)\<lparr>heap := heap (reg m) @ [OSDictionary (set_key k v kvs)]\<rparr>\<rparr>)"
proof -
  from new_object_cases [OF assms]
  have d: "d = length (heap (reg m))"
    and m': "m' = m\<lparr>oom := tl (oom m), reg := (reg m)\<lparr>heap := heap (reg m) @ [OSDictionary kvs]\<rparr>\<rparr>"
    by auto
  have "setObject d k v m'
          = m\<lparr>oom := tl (oom m),
              reg := (reg m)\<lparr>heap := heap (reg m) @ [OSDictionary (set_key k v kvs)]\<rparr>\<rparr>"
    by (simp add: setObject_def castDictionary_def object_at_def d m')
  then show ?thesis by (simp add: d)
qed

lemma stored_copy_grows: "heap_grows m (stored_copy e key kvs m)"
  by (simp add: stored_copy_def heap_grows_def setProperty_def)

lemma stored_copy_get:
  "getProperty e' k (stored_copy e key kvs m)
     = (if e' = e \<and> k = key then Some (length (heap (reg m))) else getProperty e' k m)"
  by (simp add: stored_copy_def setProperty_def getProperty_def)

lemma stored_copy_object:
  "object_at (stored_copy e key kvs m) (length (heap (reg m))) = Some (OSDictionary kvs)"
  by (simp add: stored_copy_def setProperty_def object_at_def)

lemma stored_copy_oom: "oom (stored_copy e key kvs m) = tl (oom m)"
  by (simp add: stored_copy_def setProperty_def)

lemma stored_copy_trace: "trace (stored_copy e key kvs m) = trace m"
  by (simp add: stored_copy_def setProperty_def)

lemma updateIcon_cases:
  "(\<exists>icon kvs. getProperty e ''IOMediaIcon'' m = Some icon \<and> castDictionary m icon = Some kvs
       \<and> take 1 (oom m) \<noteq> [True]
       \<and> updateIcon e ic m = stored_copy e ''IOMediaIcon'' (set_key ''IOBundleResourceFile'' ic kvs) m)
   \<or> (\<exists>icon kvs bs. getProperty e ''IOMediaIcon'' m = Some icon \<and> castDictionary m icon = Some kvs
       \<and> oom m = True # bs \<and> updateIcon e ic m = m\<lparr>oom := bs\<rparr>)
   \<or> ((\<forall>icon. getProperty e ''IOMediaIcon'' m = Some icon \<longrightarrow> castDictionary m icon = None)
       \<and> updateIcon e ic m = m)"
proof (cases "getProperty e ''IOMediaIcon'' m")
  case None
  then show ?thesis by (simp add: updateIcon_def)
next
  case (Some icon)
  show ?thesis
  proof (cases "castDictionary m icon")
    case None
    with Some show ?thesis by (simp add: updateIcon_def)
  next
    case kvs: (Some kvs)
    obtain r m' where n: "new_object (OSDictionary kvs) m = (r, m')"
      by (cases "new_object (OSDictionary kvs) m")
    show ?thesis
    proof (cases r)
      case None
      with new_object_cases [OF n] have o: "oom m = True # tl (oom m)"
        by auto
      have "updateIcon e ic m = m\<lparr>oom := tl (oom m)\<rparr>"
        using Some kvs new_object_fail [OF o, of "OSDictionary kvs"]
        by (simp add: updateIcon_def)
      with Some kvs o show ?thesis by blast
    next
      case (Some d)
      with n have n': "new_object (OSDictionary kvs) m = (Some d, m')" by simp
      from new_object_cases [OF n'] have ok: "take 1 (oom m) \<noteq> [True]" by auto
      have "updateIcon e ic m = stored_copy e ''IOMediaIcon'' (set_key ''IOBundleResourceFile'' ic kvs) m"
        using \<open>getProperty e ''IOMediaIcon'' m = Some icon\<close> kvs n'
        by (simp add: updateIcon_def store_copy [OF n'] stored_copy_def)
      with \<open>getProperty e ''IOMediaIcon'' m = Some icon\<close> kvs ok show ?thesis by blast
    qed
  qed
qed

lemma updateProtocol_cases:
  "(\<exists>proto kvs. getProperty e ''Protocol Characteristics'' m = Some proto
       \<and> castDictionary m proto = Some kvs \<and> take 1 (oom m) \<noteq> [True]
       \<and> updateProtocol e i m
           = stored_copy e ''Protocol Characteristics''
               (set_key ''Physical Interconnect Location'' i kvs) m)
   \<or> (getProperty e ''Protocol Characteristics'' m = None \<and> take 1 (oom m) \<noteq> [True]
       \<and> updateProtocol e i m
           = stored_copy e ''Protocol Characteristics''
               [(''Physical Interconnect Location'', i)] m)
   \<or> (\<exists>bs. (\<forall>proto. getProperty e ''Protocol Characteristics'' m = Some proto \<longrightarrow>
                 castDictionary m proto \<noteq> None)
       \<and> oom m = True # bs \<and> updateProtocol e i m = m\<lparr>oom := bs\<rparr>)
   \<or> ((\<exists>proto. getProperty e ''Protocol Characteristics'' m = Some proto
          \<and> castDictionary m proto = None)
       \<and> updateProtocol e i m = m)"
proof (cases "getProperty e ''Protocol Characteristics'' m")
  case None
  obtain r m' where n: "new_object (OSDictionary []) m = (r, m')"
    by (cases "new_object (OSDictionary []) m")
  show ?thesis
  proof (cases r)
    case r: None
    with new_object_cases [OF n] have o: "oom m = True # tl (oom m)"
      by auto
    have "updateProtocol e i m = m\<lparr>oom := tl (oom m)\<rparr>"
      using None new_object_fail [OF o, of "OSDictionary []"]
      by (simp add: updateProtocol_def)
    with None o show ?thesis by auto
  next
    case (Some d)
    with n have n': "new_object (OSDictionary []) m = (Some d, m')" by simp
    from new_object_cases [OF n'] have ok: "take 1 (oom m) \<noteq> [True]" by auto
    have "updateProtocol e i m
            = stored_copy e ''Protocol Characteristics''
                [(''Physical Interconnect Location'', i)] m"
      using None n' by (simp add: updateProtocol_def store_copy [OF n'] stored_copy_def)
    with None ok show ?thesis by blast
  qed
next
  case (Some proto)
  show ?thesis
  proof (cases "castDictionary m proto")
    case None
    with Some show ?thesis by (simp add: updateProtocol_def)
  next
    case kvs: (Some kvs)
    obtain r m' where n: "new_object (OSDictionary kvs) m = (r, m')"
      by (cases "new_object (OSDictionary kvs) m")
    show ?thesis
    proof (cases r)
      case None
      with new_object_cases [OF n] have o: "oom m = True # tl (oom m)"
        by auto
      have "updateProtocol e i m = m\<lparr>oom := tl (oom m)\<rparr>"
        using Some kvs new_object_fail [OF o, of "OSDictionary kvs"]
        by (simp add: updateProtocol_def)
      with Some kvs o show ?thesis by auto
    next
      case (Some d)
      with n have n': "new_object (OSDictionary kvs) m = (Some d, m')" by simp
      from new_object_cases [OF n'] have ok: "take 1 (oom m) \<noteq> [True]" by auto
      have "updateProtocol e i m
              = stored_copy e ''Protocol Characteristics''
                  (set_key ''Physical Interconnect Location'' i kvs) m"
        using \<open>getProperty e ''Protocol Characteristics'' m = Some proto\<close> kvs n'
        by (simp add: updateProtocol_def store_copy [OF n'] stored_copy_def)
      with \<open>getProperty e ''Protocol Characteristics'' m = Some proto\<close> kvs ok
      show ?thesis by blast
    qed
  qed
qed

lemma oom_update_same: "oom m = bs \<Longrightarrow> m\<lparr>oom := bs\<rparr> = m"
  by (cases m) simp

lemma setBuiltIn_cases:
  "(take 1 (oom m) \<noteq> [True]
      \<and> setBuiltIn (Some e) m
          = setProperty e ''built-in'' (length (heap (reg m)))
              (m\<lparr>oom := tl (oom m), reg := (reg m)\<lparr>heap := heap (reg m) @ [OSData [1]]\<rparr>\<rparr>))
   \<or> (\<exists>bs. oom m = True # bs \<and> setBuiltIn (Some e) m = m\<lparr>oom := bs\<rparr>)"
  by (cases "oom m")
    (auto simp: setBuiltIn.simps new_object_def try_alloc_def oom_update_same
      split: bool.splits)

subsection \<open>What each step leaves alone\<close>

lemma getProperty_oom: "getProperty e k (m\<lparr>oom := bs\<rparr>) = getProperty e k m"
  by (simp add: getProperty_def)

lemma object_at_oom: "object_at (m\<lparr>oom := bs\<rparr>) a = object_at m a"
  by (simp add: object_at_def)

lemma updateIcon_grows: "heap_grows m (updateIcon e ic m)"
  using updateIcon_cases [of e m ic]
  by (auto simp: stored_copy_grows heap_grows_refl)

lemma updateProtocol_grows: "heap_grows m (updateProtocol e i m)"
  using updateProtocol_cases [of e m i]
  by (auto simp: stored_copy_grows heap_grows_refl)

lemma setBuiltIn_grows: "heap_grows m (setBuiltIn p m)"
proof (cases p)
  case None
  then show ?thesis by (simp add: heap_grows_refl)
next
  case (Some e)
  with setBuiltIn_cases [of m e] show ?thesis
    by (auto simp: heap_grows_def setProperty_def)
qed

lemma updateIcon_get:
  "k \<noteq> ''IOMediaIcon'' \<or> e' \<noteq> e \<Longrightarrow>
     getProperty e' k (updateIcon e ic m) = getProperty e' k m"
  using updateIcon_cases [of e m ic]
  by (auto simp: stored_copy_get getProperty_oom)

lemma updateProtocol_get:
  "k \<noteq> ''Protocol Characteristics'' \<or> e' \<noteq> e \<Longrightarrow>
     getProperty e' k (updateProtocol e i m) = getProperty e' k m"
  using updateProtocol_cases [of e m i]
  by (auto simp: stored_copy_get getProperty_oom)

lemma setBuiltIn_get:
  "k \<noteq> ''built-in'' \<or> p \<noteq> Some e' \<Longrightarrow>
     getProperty e' k (setBuiltIn p m) = getProperty e' k m"
proof (cases p)
  case None
  then show ?thesis by simp
next
  case (Some e)
  assume "k \<noteq> ''built-in'' \<or> p \<noteq> Some e'"
  with Some setBuiltIn_cases [of m e] show ?thesis
    by (auto simp: setProperty_get getProperty_oom) (simp_all add: getProperty_def)
qed

lemma updateIcon_oom: "oom m = [] \<Longrightarrow> oom (updateIcon e ic m) = []"
  using updateIcon_cases [of e m ic] by (auto simp: stored_copy_oom)

lemma updateProtocol_oom: "oom m = [] \<Longrightarrow> oom (updateProtocol e i m) = []"
  using updateProtocol_cases [of e m i] by (auto simp: stored_copy_oom)

lemma setBuiltIn_oom: "oom m = [] \<Longrightarrow> oom (setBuiltIn p m) = []"
  using setBuiltIn_cases [of m] by (cases p) (auto simp: setProperty_oom)

lemma updateOtherProperties_plan:
  assumes "oom m = []"
  shows "updateOtherProperties (Some e) m =
     setBuiltIn (Some e)
       (updateProtocol e (length (heap (reg m)))
         (updateIcon e (Suc (length (heap (reg m))))
           (setProperty e ''Physical Interconnect Location'' (length (heap (reg m)))
             (with_strings e m))))"
  using assms
  by (simp add: updateOtherProperties.simps new_object_def try_alloc_def emit_def
      with_strings_def)

lemma map_of_set_key: "map_of (set_key k v kvs) = (map_of kvs)(k \<mapsto> v)"
  by (induction kvs) (auto simp: fun_eq_iff)

lemma with_strings_facts:
  "heap_grows m (with_strings e m)"
  "oom (with_strings e m) = oom m"
  "getProperty e' k (with_strings e m) = getProperty e' k m"
  "object_at (with_strings e m) (length (heap (reg m))) = Some (OSString ''Internal'')"
  "object_at (with_strings e m) (Suc (length (heap (reg m)))) = Some (OSString ''Internal.icns'')"
  "length (heap (reg (with_strings e m))) = Suc (Suc (length (heap (reg m))))"
  by (simp_all add: with_strings_def heap_grows_def getProperty_def object_at_def nth_append)

lemma setProperty_grows: "heap_grows m (setProperty e key a m)"
  by (simp add: heap_grows_def setProperty_heap)

lemma castDictionary_iff:
  "(castDictionary m a = Some kvs) = (object_at m a = Some (OSDictionary kvs))"
  by (auto simp: castDictionary_def split: option.splits osobject.splits)


lemma castDictionary_grows:
  "heap_grows m m' \<Longrightarrow> object_at m a = Some obj \<Longrightarrow> castDictionary m' a = castDictionary m a"
  by (simp add: castDictionary_def heap_grows_object)

text \<open>
  A property that is there but is no dictionary is left as it is by the icon and the
  protocol steps; so is an icon that is not there.
\<close>

lemma wrong_kind_kept:
  assumes "oom m = []"
    and "key = ''Protocol Characteristics'' \<or> key = ''IOMediaIcon''"
    and "getProperty e key m = Some a" "object_at m a = Some obj" "castDictionary m a = None"
  shows "getProperty e key (updateOtherProperties (Some e) m) = Some a"
    and "object_at (updateOtherProperties (Some e) m) a = Some obj"
proof -
  define L where "L = length (heap (reg m))"
  define m3 where "m3 = setProperty e ''Physical Interconnect Location'' L (with_strings e m)"
  define m4 where "m4 = updateIcon e (Suc L) m3"
  define m5 where "m5 = updateProtocol e L m4"
  define m6 where "m6 = setBuiltIn (Some e) m5"
  have m6: "updateOtherProperties (Some e) m = m6"
    by (simp add: updateOtherProperties_plan [OF assms(1)] m6_def m5_def m4_def m3_def L_def)
  have g0: "heap_grows m m3"
    unfolding m3_def by (rule heap_grows_trans [OF with_strings_facts(1) setProperty_grows])
  have g3: "heap_grows m3 m4" unfolding m4_def by (rule updateIcon_grows)
  have g4: "heap_grows m4 m5" unfolding m5_def by (rule updateProtocol_grows)
  have g5: "heap_grows m5 m6" unfolding m6_def by (rule setBuiltIn_grows)
  note g04 = heap_grows_trans [OF g0 g3]
  note g06 = heap_grows_trans [OF heap_grows_trans [OF g04 g4] g5]
  have k: "key \<noteq> ''Physical Interconnect Location''" "key \<noteq> ''built-in''"
    using assms(2) by auto
  have p3: "getProperty e key m3 = Some a"
    using assms(3) k by (simp add: m3_def setProperty_get with_strings_facts(3))
  have c3: "castDictionary m3 a = None"
    using castDictionary_grows [OF g0 assms(4)] assms(5) by simp
  have i4: "key = ''IOMediaIcon'' \<Longrightarrow> m4 = m3"
    using p3 c3 by (simp add: m4_def updateIcon_def)
  have p4: "getProperty e key m4 = Some a"
  proof (cases "key = ''IOMediaIcon''")
    case True
    with i4 p3 show ?thesis by simp
  next
    case False
    with p3 show ?thesis by (simp add: m4_def updateIcon_get)
  qed
  have c4: "castDictionary m4 a = None"
    using castDictionary_grows [OF g04 assms(4)] assms(5) by simp
  have i5: "key = ''Protocol Characteristics'' \<Longrightarrow> m5 = m4"
    using p4 c4 by (simp add: m5_def updateProtocol_def)
  have p5: "getProperty e key m5 = Some a"
  proof (cases "key = ''Protocol Characteristics''")
    case True
    with i5 p4 show ?thesis by simp
  next
    case False
    with p4 show ?thesis by (simp add: m5_def updateProtocol_get)
  qed
  show "getProperty e key (updateOtherProperties (Some e) m) = Some a"
    using p5 k by (simp add: m6 m6_def setBuiltIn_get)
  show "object_at (updateOtherProperties (Some e) m) a = Some obj"
    unfolding m6 using g06 assms(4) by (rule heap_grows_object)
qed

lemma icon_absent_kept:
  assumes "oom m = []" "getProperty e ''IOMediaIcon'' m = None"
  shows "getProperty e ''IOMediaIcon'' (updateOtherProperties (Some e) m) = None"
proof -
  let ?m3 = "setProperty e ''Physical Interconnect Location'' (length (heap (reg m)))
               (with_strings e m)"
  have p3: "getProperty e ''IOMediaIcon'' ?m3 = None"
    using assms(2) by (simp add: setProperty_get with_strings_facts(3))
  then have "updateIcon e (Suc (length (heap (reg m)))) ?m3 = ?m3"
    by (simp add: updateIcon_def)
  with p3 show ?thesis
    by (simp add: updateOtherProperties_plan [OF assms(1)] setBuiltIn_get updateProtocol_get)
qed

text \<open>
  C7, as the code has it. When no allocation fails, \<open>updateOtherProperties\<close> leaves
  the entry with: \<open>Physical Interconnect Location\<close> pointing to a string
  \<open>Internal\<close>; for an \<open>IOMediaIcon\<close> that was a dictionary, a new dictionary object
  with the same members and \<open>IOBundleResourceFile\<close> set to a string
  \<open>Internal.icns\<close>; for a \<open>Protocol Characteristics\<close> that was a dictionary, a new
  dictionary object with the same members and \<open>Physical Interconnect Location\<close> set
  to the string \<open>Internal\<close>, and for an absent one a new dictionary with that member
  only; \<open>built-in\<close> pointing to the one-byte blob 01. A
  \<open>Protocol Characteristics\<close> or an \<open>IOMediaIcon\<close> that is there but is no
  dictionary stays as it is: no copy is made and no dictionary is created; an
  \<open>IOMediaIcon\<close> that is absent stays absent. Every object that was on the heap is
  unchanged, the old dictionaries among them. \<open>set_key\<close> keeps the other keys.
\<close>

theorem update_postcondition:
  assumes "oom m = []"
  shows "\<exists>i ic b.
     object_at (updateOtherProperties (Some e) m) i = Some (OSString ''Internal'')
     \<and> object_at (updateOtherProperties (Some e) m) ic = Some (OSString ''Internal.icns'')
     \<and> object_at (updateOtherProperties (Some e) m) b = Some (OSData [1])
     \<and> getProperty e ''Physical Interconnect Location'' (updateOtherProperties (Some e) m) = Some i
     \<and> (\<forall>icon kvs. getProperty e ''IOMediaIcon'' m = Some icon
            \<and> object_at m icon = Some (OSDictionary kvs) \<longrightarrow>
          (\<exists>d. d \<noteq> icon
             \<and> getProperty e ''IOMediaIcon'' (updateOtherProperties (Some e) m) = Some d
             \<and> object_at (updateOtherProperties (Some e) m) d
                 = Some (OSDictionary (set_key ''IOBundleResourceFile'' ic kvs))))
     \<and> (\<forall>proto kvs. getProperty e ''Protocol Characteristics'' m = Some proto
            \<and> object_at m proto = Some (OSDictionary kvs) \<longrightarrow>
          (\<exists>d. d \<noteq> proto
             \<and> getProperty e ''Protocol Characteristics'' (updateOtherProperties (Some e) m) = Some d
             \<and> object_at (updateOtherProperties (Some e) m) d
                 = Some (OSDictionary (set_key ''Physical Interconnect Location'' i kvs))))
     \<and> (getProperty e ''Protocol Characteristics'' m = None \<longrightarrow>
          (\<exists>d. getProperty e ''Protocol Characteristics'' (updateOtherProperties (Some e) m) = Some d
             \<and> object_at (updateOtherProperties (Some e) m) d
                 = Some (OSDictionary [(''Physical Interconnect Location'', i)])))
     \<and> (\<forall>key a obj. (key = ''Protocol Characteristics'' \<or> key = ''IOMediaIcon'')
            \<and> getProperty e key m = Some a \<and> object_at m a = Some obj
            \<and> castDictionary m a = None \<longrightarrow>
          getProperty e key (updateOtherProperties (Some e) m) = Some a)
     \<and> (getProperty e ''IOMediaIcon'' m = None \<longrightarrow>
          getProperty e ''IOMediaIcon'' (updateOtherProperties (Some e) m) = None)
     \<and> getProperty e ''built-in'' (updateOtherProperties (Some e) m) = Some b
     \<and> (\<forall>a obj. object_at m a = Some obj \<longrightarrow>
            object_at (updateOtherProperties (Some e) m) a = Some obj)
     \<and> (\<forall>k v kvs. map_of (set_key k v kvs) = (map_of kvs)(k \<mapsto> v))"
proof -
  define L where "L = length (heap (reg m))"
  define W where "W = with_strings e m"
  define m3 where "m3 = setProperty e ''Physical Interconnect Location'' L W"
  define m4 where "m4 = updateIcon e (Suc L) m3"
  define m5 where "m5 = updateProtocol e L m4"
  define m6 where "m6 = setBuiltIn (Some e) m5"
  have m6: "updateOtherProperties (Some e) m = m6"
    by (simp add: updateOtherProperties_plan [OF assms] m6_def m5_def m4_def m3_def W_def L_def)
  have g0: "heap_grows m m3"
    unfolding m3_def W_def
    by (rule heap_grows_trans [OF with_strings_facts(1) setProperty_grows])
  have g3: "heap_grows m3 m4" unfolding m4_def by (rule updateIcon_grows)
  have g4: "heap_grows m4 m5" unfolding m5_def by (rule updateProtocol_grows)
  have g5: "heap_grows m5 m6" unfolding m6_def by (rule setBuiltIn_grows)
  note g35 = heap_grows_trans [OF g3 g4]
  note g36 = heap_grows_trans [OF g35 g5]
  note g46 = heap_grows_trans [OF g4 g5]
  note g06 = heap_grows_trans [OF g0 g36]
  note g04 = heap_grows_trans [OF g0 g3]
  have o3: "oom m3 = []"
    by (simp add: m3_def W_def setProperty_oom with_strings_facts(2) assms)
  have o4: "oom m4 = []" unfolding m4_def using o3 by (rule updateIcon_oom)
  have o5: "oom m5 = []" unfolding m5_def using o4 by (rule updateProtocol_oom)
  have len3: "length (heap (reg m3)) = Suc (Suc L)"
    by (simp add: m3_def W_def setProperty_heap with_strings_facts(6) L_def)
  have s_i: "object_at m3 L = Some (OSString ''Internal'')"
    by (simp add: m3_def W_def setProperty_object with_strings_facts(4) L_def)
  have s_ic: "object_at m3 (Suc L) = Some (OSString ''Internal.icns'')"
    by (simp add: m3_def W_def setProperty_object with_strings_facts(5) L_def)
  have get3: "\<And>k. k \<noteq> ''Physical Interconnect Location'' \<Longrightarrow>
                getProperty e k m3 = getProperty e k m"
    by (simp add: m3_def W_def setProperty_get with_strings_facts(3))
  have pil3: "getProperty e ''Physical Interconnect Location'' m3 = Some L"
    by (simp add: m3_def setProperty_get)
  have c1: "object_at m6 L = Some (OSString ''Internal'')"
    using g36 s_i by (rule heap_grows_object)
  have c2: "object_at m6 (Suc L) = Some (OSString ''Internal.icns'')"
    using g36 s_ic by (rule heap_grows_object)
  have "take 1 (oom m5) \<noteq> [True]" using o5 by simp
  from setBuiltIn_written [OF this, of e]
  obtain b where b: "getProperty e ''built-in'' m6 = Some b" "object_at m6 b = Some (OSData [1])"
    unfolding m6_def by blast
  have c4: "getProperty e ''Physical Interconnect Location'' m6 = Some L"
    by (simp add: m6_def m5_def m4_def setBuiltIn_get updateProtocol_get updateIcon_get pil3)
  have c5: "\<exists>d. d \<noteq> icon
             \<and> getProperty e ''IOMediaIcon'' m6 = Some d
             \<and> object_at m6 d = Some (OSDictionary (set_key ''IOBundleResourceFile'' (Suc L) kvs))"
    if h: "getProperty e ''IOMediaIcon'' m = Some icon \<and> object_at m icon = Some (OSDictionary kvs)"
    for icon kvs
  proof -
    have p: "getProperty e ''IOMediaIcon'' m3 = Some icon"
      using h by (simp add: get3)
    have c: "castDictionary m3 icon = Some kvs"
      using heap_grows_object [OF g0] h by (simp add: castDictionary_iff)
    from updateIcon_cases [of e m3 "Suc L"] p c o3
    have m4': "m4 = stored_copy e ''IOMediaIcon'' (set_key ''IOBundleResourceFile'' (Suc L) kvs) m3"
      by (auto simp: m4_def)
    have "getProperty e ''IOMediaIcon'' m4 = Some (Suc (Suc L))"
      by (simp add: m4' stored_copy_get len3)
    then have 1: "getProperty e ''IOMediaIcon'' m6 = Some (Suc (Suc L))"
      by (simp add: m6_def m5_def setBuiltIn_get updateProtocol_get)
    have "object_at m4 (Suc (Suc L))
            = Some (OSDictionary (set_key ''IOBundleResourceFile'' (Suc L) kvs))"
      using stored_copy_object [of e "''IOMediaIcon''" _ m3] by (simp add: m4' len3)
    with g46 have 2: "object_at m6 (Suc (Suc L))
            = Some (OSDictionary (set_key ''IOBundleResourceFile'' (Suc L) kvs))"
      by (rule heap_grows_object)
    have "icon < L" using h object_at_valid [of m icon] by (simp add: L_def)
    with 1 2 show ?thesis by auto
  qed
  have get4: "getProperty e ''Protocol Characteristics'' m4
                = getProperty e ''Protocol Characteristics'' m"
    by (simp add: m4_def updateIcon_get get3)
  have len4: "Suc (Suc L) \<le> length (heap (reg m4))"
    using heap_grows_length [OF g3] by (simp add: len3)
  have c6: "\<exists>d. d \<noteq> proto
             \<and> getProperty e ''Protocol Characteristics'' m6 = Some d
             \<and> object_at m6 d
                 = Some (OSDictionary (set_key ''Physical Interconnect Location'' L kvs))"
    if h: "getProperty e ''Protocol Characteristics'' m = Some proto
             \<and> object_at m proto = Some (OSDictionary kvs)"
    for proto kvs
  proof -
    have p: "getProperty e ''Protocol Characteristics'' m4 = Some proto"
      using h by (simp add: get4)
    have c: "castDictionary m4 proto = Some kvs"
      using heap_grows_object [OF g04] h by (simp add: castDictionary_iff)
    from updateProtocol_cases [of e m4 L] p c o4
    have m5': "m5 = stored_copy e ''Protocol Characteristics''
                      (set_key ''Physical Interconnect Location'' L kvs) m4"
      by (auto simp: m5_def)
    have "getProperty e ''Protocol Characteristics'' m5 = Some (length (heap (reg m4)))"
      by (simp add: m5' stored_copy_get)
    then have 1: "getProperty e ''Protocol Characteristics'' m6 = Some (length (heap (reg m4)))"
      by (simp add: m6_def setBuiltIn_get)
    have "object_at m5 (length (heap (reg m4)))
            = Some (OSDictionary (set_key ''Physical Interconnect Location'' L kvs))"
      by (simp add: m5' stored_copy_object)
    with g5 have 2: "object_at m6 (length (heap (reg m4)))
            = Some (OSDictionary (set_key ''Physical Interconnect Location'' L kvs))"
      by (rule heap_grows_object)
    have "proto < L" using h object_at_valid [of m proto] by (simp add: L_def)
    with 1 2 len4 show ?thesis by auto
  qed
  have c7: "\<exists>d. getProperty e ''Protocol Characteristics'' m6 = Some d
             \<and> object_at m6 d = Some (OSDictionary [(''Physical Interconnect Location'', L)])"
    if h: "getProperty e ''Protocol Characteristics'' m = None"
  proof -
    have p: "getProperty e ''Protocol Characteristics'' m4 = None"
      using h by (simp add: get4)
    from updateProtocol_cases [of e m4 L] p o4
    have m5': "m5 = stored_copy e ''Protocol Characteristics''
                      [(''Physical Interconnect Location'', L)] m4"
      by (auto simp: m5_def)
    have "getProperty e ''Protocol Characteristics'' m5 = Some (length (heap (reg m4)))"
      by (simp add: m5' stored_copy_get)
    then have 1: "getProperty e ''Protocol Characteristics'' m6 = Some (length (heap (reg m4)))"
      by (simp add: m6_def setBuiltIn_get)
    have "object_at m5 (length (heap (reg m4)))
            = Some (OSDictionary [(''Physical Interconnect Location'', L)])"
      by (simp add: m5' stored_copy_object)
    with g5 have 2: "object_at m6 (length (heap (reg m4)))
            = Some (OSDictionary [(''Physical Interconnect Location'', L)])"
      by (rule heap_grows_object)
    from 1 2 show ?thesis by auto
  qed
  have c9: "\<forall>a obj. object_at m a = Some obj \<longrightarrow> object_at m6 a = Some obj"
    using heap_grows_object [OF g06] by blast
  have c11: "\<forall>key a obj. (key = ''Protocol Characteristics'' \<or> key = ''IOMediaIcon'')
            \<and> getProperty e key m = Some a \<and> object_at m a = Some obj
            \<and> castDictionary m a = None \<longrightarrow> getProperty e key m6 = Some a"
    using wrong_kind_kept(1) [OF assms, of _ e] unfolding m6 by blast
  have c12: "getProperty e ''IOMediaIcon'' m = None \<longrightarrow> getProperty e ''IOMediaIcon'' m6 = None"
    using icon_absent_kept [OF assms, of e] unfolding m6 by blast
  have c10: "\<forall>k v kvs. map_of (set_key k v kvs) = (map_of kvs)(k \<mapsto> v)"
    by (simp add: map_of_set_key)
  show ?thesis
    unfolding m6
    apply (rule exI [of _ L], rule exI [of _ "Suc L"], rule exI [of _ b])
    using c1 c2 b c4 c5 c6 c7 c9 c10 c11 c12 by blast
qed


lemma ex_odd_facts:
  "oom (machine_of ex_odd) = []"
  "getProperty 7 ''Protocol Characteristics'' (machine_of ex_odd) = Some 0"
  "object_at (machine_of ex_odd) 0 = Some (OSString ''SATA'')"
  "castDictionary (machine_of ex_odd) 0 = None"
  by (simp_all add: machine_of_def ex_odd_def getProperty_def object_at_def castDictionary_def)

text \<open>
  A \<open>Protocol Characteristics\<close> that is a string: after the update, with no
  allocation failing, the property still points to the same string; no dictionary was
  made for it.
\<close>

theorem update_wrong_kind_counterexample:
  "oom (machine_of ex_odd) = []
   \<and> getProperty 7 ''Protocol Characteristics'' (machine_of ex_odd) = Some 0
   \<and> object_at (machine_of ex_odd) 0 = Some (OSString ''SATA'')
   \<and> getProperty 7 ''Protocol Characteristics''
       (updateOtherProperties (Some 7) (machine_of ex_odd)) = Some 0
   \<and> object_at (updateOtherProperties (Some 7) (machine_of ex_odd)) 0 = Some (OSString ''SATA'')"
  using wrong_kind_kept [OF ex_odd_facts(1) _ ex_odd_facts(2,3,4)] ex_odd_facts(1,2,3)
  by simp


theorem update_postcondition_witness:
  "\<exists>i ic b.
     object_at (updateOtherProperties (Some 7) (machine_of ex_media)) i
       = Some (OSString ''Internal'')
     \<and> object_at (updateOtherProperties (Some 7) (machine_of ex_media)) ic
       = Some (OSString ''Internal.icns'')
     \<and> object_at (updateOtherProperties (Some 7) (machine_of ex_media)) b = Some (OSData [1])
     \<and> getProperty 7 ''Physical Interconnect Location''
         (updateOtherProperties (Some 7) (machine_of ex_media)) = Some i
     \<and> (\<exists>d. d \<noteq> 2
           \<and> getProperty 7 ''IOMediaIcon'' (updateOtherProperties (Some 7) (machine_of ex_media))
               = Some d
           \<and> object_at (updateOtherProperties (Some 7) (machine_of ex_media)) d
               = Some (OSDictionary [(''CFBundleIdentifier'', 0), (''IOBundleResourceFile'', ic)]))
     \<and> (\<exists>d. d \<noteq> 3
           \<and> getProperty 7 ''Protocol Characteristics''
               (updateOtherProperties (Some 7) (machine_of ex_media)) = Some d
           \<and> object_at (updateOtherProperties (Some 7) (machine_of ex_media)) d
               = Some (OSDictionary [(''Physical Interconnect'', 4),
                                     (''Physical Interconnect Location'', i)]))
     \<and> getProperty 7 ''built-in'' (updateOtherProperties (Some 7) (machine_of ex_media)) = Some b
     \<and> object_at (updateOtherProperties (Some 7) (machine_of ex_media)) 2
         = Some (OSDictionary [(''CFBundleIdentifier'', 0), (''IOBundleResourceFile'', 1)])
     \<and> object_at (updateOtherProperties (Some 7) (machine_of ex_media)) 3
         = Some (OSDictionary [(''Physical Interconnect'', 4),
                               (''Physical Interconnect Location'', 5)])
     \<and> getProperty 7 ''IOMediaIcon'' (updateOtherProperties (Some 7) (machine_of ex_odd)) = Some 1"
proof -
  let ?M = "machine_of ex_media"
  let ?icon = "[(''CFBundleIdentifier'', 0 :: nat), (''IOBundleResourceFile'', 1)]"
  let ?proto = "[(''Physical Interconnect'', 4 :: nat), (''Physical Interconnect Location'', 5)]"
  have plan: "oom ?M = []"
    by (simp add: machine_of_def)
  have icon: "getProperty 7 ''IOMediaIcon'' ?M = Some 2 \<and> object_at ?M 2 = Some (OSDictionary ?icon)"
    by (simp add: getProperty_def object_at_def machine_of_def ex_media_def)
  have proto: "getProperty 7 ''Protocol Characteristics'' ?M = Some 3
      \<and> object_at ?M 3 = Some (OSDictionary ?proto)"
    by (simp add: getProperty_def object_at_def machine_of_def ex_media_def)
  have k1: "\<And>ic. set_key ''IOBundleResourceFile'' ic ?icon
              = [(''CFBundleIdentifier'', 0), (''IOBundleResourceFile'', ic)]"
    by simp
  have k2: "\<And>i. set_key ''Physical Interconnect Location'' i ?proto
              = [(''Physical Interconnect'', 4), (''Physical Interconnect Location'', i)]"
    by simp
  from update_postcondition [OF plan, of 7] obtain i ic b where r:
    "object_at (updateOtherProperties (Some 7) ?M) i = Some (OSString ''Internal'')"
    "object_at (updateOtherProperties (Some 7) ?M) ic = Some (OSString ''Internal.icns'')"
    "object_at (updateOtherProperties (Some 7) ?M) b = Some (OSData [1])"
    "getProperty 7 ''Physical Interconnect Location'' (updateOtherProperties (Some 7) ?M) = Some i"
    "\<forall>icon kvs. getProperty 7 ''IOMediaIcon'' ?M = Some icon
            \<and> object_at ?M icon = Some (OSDictionary kvs) \<longrightarrow>
          (\<exists>d. d \<noteq> icon
             \<and> getProperty 7 ''IOMediaIcon'' (updateOtherProperties (Some 7) ?M) = Some d
             \<and> object_at (updateOtherProperties (Some 7) ?M) d
                 = Some (OSDictionary (set_key ''IOBundleResourceFile'' ic kvs)))"
    "\<forall>proto kvs. getProperty 7 ''Protocol Characteristics'' ?M = Some proto
            \<and> object_at ?M proto = Some (OSDictionary kvs) \<longrightarrow>
          (\<exists>d. d \<noteq> proto
             \<and> getProperty 7 ''Protocol Characteristics'' (updateOtherProperties (Some 7) ?M) = Some d
             \<and> object_at (updateOtherProperties (Some 7) ?M) d
                 = Some (OSDictionary (set_key ''Physical Interconnect Location'' i kvs)))"
    "\<forall>key a obj. (key = ''Protocol Characteristics'' \<or> key = ''IOMediaIcon'')
            \<and> getProperty 7 key ?M = Some a \<and> object_at ?M a = Some obj
            \<and> castDictionary ?M a = None \<longrightarrow>
          getProperty 7 key (updateOtherProperties (Some 7) ?M) = Some a"
    "getProperty 7 ''IOMediaIcon'' ?M = None \<longrightarrow>
          getProperty 7 ''IOMediaIcon'' (updateOtherProperties (Some 7) ?M) = None"
    "getProperty 7 ''built-in'' (updateOtherProperties (Some 7) ?M) = Some b"
    "\<forall>a obj. object_at ?M a = Some obj \<longrightarrow>
            object_at (updateOtherProperties (Some 7) ?M) a = Some obj"
    by (elim exE conjE)
  from r(5) [rule_format, OF icon] obtain d1 where d1: "d1 \<noteq> 2"
    "getProperty 7 ''IOMediaIcon'' (updateOtherProperties (Some 7) ?M) = Some d1"
    "object_at (updateOtherProperties (Some 7) ?M) d1
       = Some (OSDictionary [(''CFBundleIdentifier'', 0), (''IOBundleResourceFile'', ic)])"
    unfolding k1 by (elim exE conjE)
  from r(6) [rule_format, OF proto] obtain d2 where d2: "d2 \<noteq> 3"
    "getProperty 7 ''Protocol Characteristics'' (updateOtherProperties (Some 7) ?M) = Some d2"
    "object_at (updateOtherProperties (Some 7) ?M) d2
       = Some (OSDictionary [(''Physical Interconnect'', 4),
                             (''Physical Interconnect Location'', i)])"
    unfolding k2 by (elim exE conjE)
  note o1 = r(10) [rule_format, OF icon [THEN conjunct2]]
  note o2 = r(10) [rule_format, OF proto [THEN conjunct2]]
  have odd: "(''IOMediaIcon'' = ''Protocol Characteristics'' \<or> ''IOMediaIcon'' = ''IOMediaIcon'')
      \<and> getProperty 7 ''IOMediaIcon'' (machine_of ex_odd) = Some 1
      \<and> object_at (machine_of ex_odd) 1 = Some (OSString ''External.icns'')
      \<and> castDictionary (machine_of ex_odd) 1 = None"
    by (simp add: machine_of_def ex_odd_def getProperty_def object_at_def castDictionary_def)
  from update_postcondition [OF ex_odd_facts(1), of 7] obtain i' ic' b' where
    "\<forall>key a obj. (key = ''Protocol Characteristics'' \<or> key = ''IOMediaIcon'')
            \<and> getProperty 7 key (machine_of ex_odd) = Some a
            \<and> object_at (machine_of ex_odd) a = Some obj
            \<and> castDictionary (machine_of ex_odd) a = None \<longrightarrow>
          getProperty 7 key (updateOtherProperties (Some 7) (machine_of ex_odd)) = Some a"
    by (elim exE conjE)
  from this [rule_format, OF odd]
  have o3: "getProperty 7 ''IOMediaIcon'' (updateOtherProperties (Some 7) (machine_of ex_odd))
              = Some 1" .
  from r(1-4,9) d1 d2 o1 o2 o3 show ?thesis by blast
qed

section \<open>Allocation failures\<close>

text \<open>
  Only \<open>Internal.icns\<close> cannot be allocated: the location, the protocol
  characteristics and \<open>built-in\<close> are not written either.
\<close>

theorem alloc_failure_counterexample:
  "getProperty 7 ''Physical Interconnect Location'' (updateOtherProperties (Some 7) ex_media_low)
     = None
   \<and> getProperty 7 ''built-in'' (updateOtherProperties (Some 7) ex_media_low) = None
   \<and> getProperty 7 ''Protocol Characteristics'' (updateOtherProperties (Some 7) ex_media_low)
     = Some 3
   \<and> oom (updateOtherProperties (Some 7) ex_media_low) = []"
  by (simp add: updateOtherProperties.simps new_object_def try_alloc_def emit_def
      getProperty_def ex_media_low_def ex_media_def blank_entry_def)

lemma updateOtherProperties_strings_fail:
  assumes "oom m = True # bs \<or> oom m = False # True # bs"
  shows "entries (reg (updateOtherProperties (Some e) m)) = entries (reg m)"
  using assms
  by (auto simp: updateOtherProperties.simps new_object_def try_alloc_def emit_def
      split: list.splits bool.splits)

lemma updateOtherProperties_continue:
  assumes "new_object (OSString ''Internal'') (emit (Update e) m) = (Some i, m1)"
    and "new_object (OSString ''Internal.icns'') m1 = (Some ic, m2)"
  shows "updateOtherProperties (Some e) m =
           setBuiltIn (Some e)
             (updateProtocol e i
               (updateIcon e ic (setProperty e ''Physical Interconnect Location'' i m2)))"
  using assms by (simp add: updateOtherProperties.simps)

text \<open>
  C9, as the code has it. When one of the two strings cannot be allocated,
  \<open>updateOtherProperties\<close> returns without writing any property of any entry. When the
  blob of \<open>setBuiltIn\<close> or the copy of a dictionary cannot be allocated, that one step does
  nothing but use up the failed allocation, and when both strings were allocated the
  steps follow each other whatever each one did. \<open>updateOtherProperties\<close> and
  \<open>setBuiltIn\<close> have no failure to report, and every driver entry other than the device
  is entered, whatever failed before.
\<close>

theorem alloc_failure_local:
  "(oom m = True # bs \<or> oom m = False # True # bs \<longrightarrow>
      entries (reg (updateOtherProperties (Some e) m)) = entries (reg m)
      \<and> trace (updateOtherProperties (Some e) m) = trace m @ [Update e])
   \<and> (oom m = True # bs \<longrightarrow> setBuiltIn (Some e) m = m\<lparr>oom := bs\<rparr>)
   \<and> (getProperty e ''IOMediaIcon'' m = Some icon \<and> castDictionary m icon = Some kvs
        \<and> oom m = True # bs \<longrightarrow> updateIcon e ic m = m\<lparr>oom := bs\<rparr>)
   \<and> ((\<forall>proto. getProperty e ''Protocol Characteristics'' m = Some proto \<longrightarrow>
           castDictionary m proto \<noteq> None)
        \<and> oom m = True # bs \<longrightarrow> updateProtocol e i m = m\<lparr>oom := bs\<rparr>)
   \<and> (new_object (OSString ''Internal'') (emit (Update e) m) = (Some i, m1)
        \<and> new_object (OSString ''Internal.icns'') m1 = (Some ic, m2) \<longrightarrow>
        updateOtherProperties (Some e) m =
          setBuiltIn (Some e)
            (updateProtocol e i
              (updateIcon e ic (setProperty e ''Physical Interconnect Location'' i m2))))
   \<and> trace (updateDrivers e ds m) = trace m @ map Update (filter (\<lambda>d. d \<noteq> e) ds)"
proof (intro conjI impI)
  assume "oom m = True # bs \<or> oom m = False # True # bs"
  then show "entries (reg (updateOtherProperties (Some e) m)) = entries (reg m)"
    by (rule updateOtherProperties_strings_fail)
next
  show "trace (updateOtherProperties (Some e) m) = trace m @ [Update e]"
    by (rule updateOtherProperties_trace)
next
  assume "oom m = True # bs"
  then show "setBuiltIn (Some e) m = m\<lparr>oom := bs\<rparr>"
    using setBuiltIn_cases [of m e] by auto
next
  assume h: "getProperty e ''IOMediaIcon'' m = Some icon \<and> castDictionary m icon = Some kvs
        \<and> oom m = True # bs"
  then show "updateIcon e ic m = m\<lparr>oom := bs\<rparr>"
    using updateIcon_cases [of e m ic] by auto
next
  assume h: "(\<forall>proto. getProperty e ''Protocol Characteristics'' m = Some proto \<longrightarrow>
           castDictionary m proto \<noteq> None) \<and> oom m = True # bs"
  then show "updateProtocol e i m = m\<lparr>oom := bs\<rparr>"
    using updateProtocol_cases [of e m i] by auto
next
  assume "new_object (OSString ''Internal'') (emit (Update e) m) = (Some i, m1)
        \<and> new_object (OSString ''Internal.icns'') m1 = (Some ic, m2)"
  then show "updateOtherProperties (Some e) m =
          setBuiltIn (Some e)
            (updateProtocol e i
              (updateIcon e ic (setProperty e ''Physical Interconnect Location'' i m2)))"
    by (intro updateOtherProperties_continue) auto
next
  show "trace (updateDrivers e ds m) = trace m @ map Update (filter (\<lambda>d. d \<noteq> e) ds)"
    by (rule updateDrivers_trace)
qed

theorem alloc_failure_local_witness:
  "entries (reg (updateOtherProperties (Some 7) ex_media_low)) = entries (reg ex_media_low)
   \<and> trace (updateOtherProperties (Some 7) ex_media_low) = [Update 7]
   \<and> setBuiltIn (Some 7) (ex_media_low\<lparr>oom := [True]\<rparr>) = ex_media_low\<lparr>oom := []\<rparr>
   \<and> updateIcon 7 9 (ex_media_low\<lparr>oom := [True]\<rparr>) = ex_media_low\<lparr>oom := []\<rparr>
   \<and> updateProtocol 7 9 (ex_media_low\<lparr>oom := [True]\<rparr>) = ex_media_low\<lparr>oom := []\<rparr>"
proof -
  have plan: "oom ex_media_low = True # [] \<or> oom ex_media_low = False # True # []"
    by (simp add: ex_media_low_def)
  have tr: "trace ex_media_low = []"
    by (simp add: ex_media_low_def)
  let ?m = "ex_media_low\<lparr>oom := [True]\<rparr>"
  have p1: "oom ?m = True # []" by simp
  have same: "?m\<lparr>oom := []\<rparr> = ex_media_low\<lparr>oom := []\<rparr>" by simp
  have icon: "getProperty 7 ''IOMediaIcon'' ?m = Some 2
      \<and> castDictionary ?m 2 = Some [(''CFBundleIdentifier'', 0), (''IOBundleResourceFile'', 1)]
      \<and> oom ?m = True # []"
    by (simp add: getProperty_def castDictionary_def object_at_def ex_media_low_def ex_media_def)
  have proto: "(\<forall>proto. getProperty 7 ''Protocol Characteristics'' ?m = Some proto \<longrightarrow>
           castDictionary ?m proto \<noteq> None) \<and> oom ?m = True # []"
    by (simp add: getProperty_def castDictionary_def object_at_def ex_media_low_def ex_media_def)
  note t1 = alloc_failure_local [of ex_media_low "[]" 7 0 "[]" 0 0 ex_media_low ex_media_low "[]",
      THEN conjunct1, THEN mp, OF plan]
  note t = alloc_failure_local [of ?m "[]" 7 2
      "[(''CFBundleIdentifier'', 0), (''IOBundleResourceFile'', 1)]" 9 9 ?m ?m "[]"]
  note t2 = t [THEN conjunct2, THEN conjunct1, THEN mp, OF p1]
  note t3 = t [THEN conjunct2, THEN conjunct2, THEN conjunct1, THEN mp, OF icon]
  note t4 = t [THEN conjunct2, THEN conjunct2, THEN conjunct2, THEN conjunct1, THEN mp, OF proto]
  from t1 tr t2 t3 t4 same show ?thesis by simp
qed


section \<open>Names and planes are left alone\<close>

lemma same_shape_refl: "same_shape m m"
  by (simp add: same_shape_def)

lemma same_shape_reg: "reg m' = reg m \<Longrightarrow> same_shape m m'"
  by (simp add: same_shape_def)

lemma same_shape_trans: "same_shape m m' \<Longrightarrow> same_shape m' m'' \<Longrightarrow> same_shape m m''"
  by (simp add: same_shape_def)

lemma shape_setProperty: "same_shape m (setProperty e key a m)"
  by (simp add: same_shape_def setProperty_def)

lemma shape_stored_copy: "same_shape m (stored_copy e key kvs m)"
  by (simp add: same_shape_def stored_copy_def setProperty_def)

lemma shape_oom: "same_shape m (m\<lparr>oom := bs\<rparr>)"
  by (simp add: same_shape_def)

lemma shape_updateIcon: "same_shape m (updateIcon e ic m)"
  using updateIcon_cases [of e m ic]
  by (auto simp: shape_stored_copy shape_oom same_shape_refl)

lemma shape_updateProtocol: "same_shape m (updateProtocol e i m)"
  using updateProtocol_cases [of e m i]
  by (auto simp: shape_stored_copy shape_oom same_shape_refl)

lemma shape_setBuiltIn: "same_shape m (setBuiltIn p m)"
proof (cases p)
  case None
  then show ?thesis by (simp add: same_shape_refl)
next
  case (Some e)
  with setBuiltIn_cases [of m e] show ?thesis
    by (auto simp: same_shape_def setProperty_def)
qed

lemma shape_new_object: "new_object obj m = (r, m') \<Longrightarrow> same_shape m m'"
  by (drule new_object_cases) (auto simp: same_shape_def)

lemma shape_emit: "same_shape m (emit ev m)"
  by (simp add: same_shape_def emit_def)

lemma shape_updateOtherProperties: "same_shape m (updateOtherProperties p m)"
proof (cases p)
  case None
  then show ?thesis by (simp add: same_shape_refl)
next
  case (Some e)
  obtain i m1 where 1: "new_object (OSString ''Internal'') (emit (Update e) m) = (i, m1)"
    by (cases "new_object (OSString ''Internal'') (emit (Update e) m)")
  obtain ic m2 where 2: "new_object (OSString ''Internal.icns'') m1 = (ic, m2)"
    by (cases "new_object (OSString ''Internal.icns'') m1")
  have s2: "same_shape m m2"
    by (rule same_shape_trans [OF same_shape_trans [OF shape_emit shape_new_object [OF 1]]
          shape_new_object [OF 2]])
  show ?thesis
  proof (cases "i = None \<or> ic = None")
    case True
    then have "updateOtherProperties (Some e) m = m2"
      using 1 2 by (auto simp: updateOtherProperties.simps split: option.splits)
    with s2 Some show ?thesis by simp
  next
    case False
    then obtain a b where ab: "i = Some a" "ic = Some b" by auto
    have "updateOtherProperties (Some e) m =
            setBuiltIn (Some e)
              (updateProtocol e a
                (updateIcon e b (setProperty e ''Physical Interconnect Location'' a m2)))"
      using 1 2 ab by (simp add: updateOtherProperties.simps)
    moreover have "same_shape m2
            (setBuiltIn (Some e)
              (updateProtocol e a
                (updateIcon e b (setProperty e ''Physical Interconnect Location'' a m2))))"
      by (rule same_shape_trans [OF same_shape_trans [OF same_shape_trans
            [OF shape_setProperty shape_updateIcon] shape_updateProtocol] shape_setBuiltIn])
    ultimately have "same_shape m2 (updateOtherProperties (Some e) m)"
      by simp
    with s2 have "same_shape m (updateOtherProperties (Some e) m)"
      by (rule same_shape_trans)
    with Some show ?thesis by simp
  qed
qed

lemma shape_updateDrivers: "same_shape m (updateDrivers e ds m)"
proof (induction ds arbitrary: m)
  case Nil
  then show ?case by (simp add: same_shape_refl)
next
  case (Cons d ds)
  have "same_shape m (if d \<noteq> e then updateOtherProperties (Some d) m else m)"
    by (simp add: shape_updateOtherProperties same_shape_refl)
  from this Cons.IH have "same_shape m
      (updateDrivers e ds (if d \<noteq> e then updateOtherProperties (Some d) m else m))"
    by (rule same_shape_trans)
  then show ?case by simp
qed

lemma shape_IOSleep: "keeps_shape env \<Longrightarrow> same_shape m (IOSleep env d m)"
  by (simp add: keeps_shape_def same_shape_def IOSleep_def)

lemma shape_polls: "keeps_shape env \<Longrightarrow> same_shape m (polls env k m)"
proof (induction k)
  case 0
  then show ?case by (simp add: polls_0 same_shape_refl)
next
  case (Suc k)
  then have "same_shape m (polls env k m)" by simp
  from this shape_IOSleep [OF Suc.prems, of "polls env k m" 10]
  show ?case unfolding polls_Suc' by (rule same_shape_trans)
qed

lemma shape_try_alloc: "try_alloc m = (b, m') \<Longrightarrow> same_shape m m'"
  using try_alloc_reg [of m] by (simp add: same_shape_reg)

lemma calm_trans: "calm m m' \<Longrightarrow> calm m' m'' \<Longrightarrow> calm m m''"
  by (auto simp: calm_def intro: quiet_trans same_shape_trans)

lemma calm_refl: "calm m m"
  by (simp add: calm_def quiet_refl same_shape_refl)

lemma calm_polls: "keeps_shape env \<Longrightarrow> calm m (polls env k m)"
  by (simp add: calm_def quiet_polls shape_polls)

lemma calm_IOSleep: "keeps_shape env \<Longrightarrow> calm m (IOSleep env d m)"
  by (simp add: calm_def quiet_IOSleep shape_IOSleep)

lemma calm_waitFlag:
  assumes "keeps_shape env" "waitFlag env key e n m = (t, m')"
  shows "calm m m'"
proof -
  from waitFlag_polls [of env key e n m] assms(2) obtain k where "m' = polls env k m"
    by auto
  with calm_polls [OF assms(1)] show ?thesis by simp
qed

lemma calm_updateOtherProperties: "calm m (updateOtherProperties p m)"
  by (simp add: calm_def quiet_updateOtherProperties shape_updateOtherProperties)

lemma calm_updateDrivers: "calm m (updateDrivers e ds m)"
  by (simp add: calm_def quiet_updateDrivers shape_updateDrivers)

lemma calm_try_alloc: "try_alloc m = (b, m') \<Longrightarrow> calm m m'"
  by (simp add: calm_def quiet_try_alloc shape_try_alloc)

lemma passes_step:
  "pass < 3 \<Longrightarrow>
     passes env e pass m =
       (case try_alloc (updateOtherProperties (Some e) m) of
          (False, m1) \<Rightarrow>
            passes env e (pass + 1) (if pass < 2 then IOSleep env 100 m1 else m1)
        | (True, m1) \<Rightarrow>
            (case iterateServicePlane (reg m1) e of
               None \<Rightarrow> Inl NoReturn
             | Some drivers \<Rightarrow>
                 passes env e (pass + 1)
                   (if pass < 2 then IOSleep env 100 (updateDrivers e drivers m1)
                    else updateDrivers e drivers m1)))"
  by (subst passes.simps) simp

lemma passes_done: "\<not> pass < 3 \<Longrightarrow> passes env e pass m = Inr m"
  by (subst passes.simps) simp

lemma shape_passes:
  "keeps_shape env \<Longrightarrow> passes env e pass m = Inr m' \<Longrightarrow> same_shape m m'"
proof (induction "nat (3 - pass)" arbitrary: pass m)
  case 0
  then show ?case by (simp add: passes_done same_shape_refl)
next
  case (Suc n)
  then have lt: "pass < 3" by simp
  obtain b m1 where a: "try_alloc (updateOtherProperties (Some e) m) = (b, m1)"
    by (cases "try_alloc (updateOtherProperties (Some e) m)")
  have s1: "same_shape m m1"
    using shape_updateOtherProperties shape_try_alloc [OF a] by (rule same_shape_trans)
  have n: "n = nat (3 - (pass + 1))" using Suc.hyps(2) by simp
  show ?case
  proof (cases b)
    case False
    let ?m2 = "if pass < 2 then IOSleep env 100 m1 else m1"
    from Suc.prems(2) lt a False have "passes env e (pass + 1) ?m2 = Inr m'"
      by (simp add: passes_step)
    from Suc.hyps(1) [OF n Suc.prems(1) this] have "same_shape ?m2 m'" .
    moreover have "same_shape m1 ?m2"
      using Suc.prems(1) by (simp add: shape_IOSleep same_shape_refl)
    ultimately have "same_shape m1 m'" by (rule same_shape_trans [rotated])
    with s1 show ?thesis by (rule same_shape_trans)
  next
    case True
    with Suc.prems(2) lt a obtain ds where ds: "iterateServicePlane (reg m1) e = Some ds"
      by (auto simp: passes_step split: option.splits)
    let ?m2 = "if pass < 2 then IOSleep env 100 (updateDrivers e ds m1)
               else updateDrivers e ds m1"
    from Suc.prems(2) lt a True ds have "passes env e (pass + 1) ?m2 = Inr m'"
      by (simp add: passes_step)
    from Suc.hyps(1) [OF n Suc.prems(1) this] have "same_shape ?m2 m'" .
    moreover have "same_shape m1 ?m2"
    proof (cases "pass < 2")
      case True
      with same_shape_trans [OF shape_updateDrivers [of m1 e ds]
          shape_IOSleep [OF Suc.prems(1), of "updateDrivers e ds m1" 100]]
      show ?thesis by simp
    next
      case False
      with shape_updateDrivers [of m1 e ds] show ?thesis by simp
    qed
    ultimately have "same_shape m1 m'" by (rule same_shape_trans [rotated])
    with s1 show ?thesis by (rule same_shape_trans)
  qed
qed

lemma calm_internalizeDevice:
  assumes "keeps_shape env" "internalizeDevice env e m = Inr m'"
  shows "calm m m'"
proof -
  let ?m0 = "setBuiltIn (Some e) (emit (Internalize e) m)"
  obtain t m1 where w: "waitFlag env ''IOPCIResourced'' e 2000 ?m0 = (t, m1)"
    by (cases "waitFlag env ''IOPCIResourced'' e 2000 ?m0")
  have "same_shape m ?m0"
    using shape_emit shape_setBuiltIn by (rule same_shape_trans)
  moreover have "same_shape ?m0 m1"
    using calm_waitFlag [OF assms(1) w] by (simp add: calm_def)
  moreover have "same_shape m1 m'"
    using assms w
    by (auto simp: internalizeDevice_def same_shape_refl shape_passes split: if_splits)
  ultimately have "same_shape m m'"
    by (meson same_shape_trans)
  with quiet_internalizeDevice [OF assms(2)] show ?thesis by (simp add: calm_def)
qed

lemma calm_getChildIterator: "getChildIterator e m = (r, m') \<Longrightarrow> calm m m'"
  by (auto simp: getChildIterator_def split: prod.splits bool.splits dest: calm_try_alloc)

lemma calm_emit_quiet: "(\<And>r. ev \<noteq> FoundRoot r) \<Longrightarrow> calm m (emit ev m)"
  by (auto simp: calm_def quiet_step_def emit_def same_shape_def)

lemma calm_recurseBridge:
  "keeps_shape env \<Longrightarrow> recurseBridge fuel cc env e m = Inr m' \<Longrightarrow> calm m m'"
  "keeps_shape env \<Longrightarrow> bridgeChildren fuel cc env cs m = Inr m' \<Longrightarrow> calm m m'"
proof (induction fuel cc env e m and fuel cc env cs m arbitrary: m' and m'
    rule: recurseBridge_bridgeChildren.induct)
  case (1 cc env e m)
  then show ?case by simp
next
  case (2 fuel cc env e m)
  obtain r m1 where g: "getChildIterator e (emit (Recurse e) m) = (r, m1)"
    by (cases "getChildIterator e (emit (Recurse e) m)")
  have c1: "calm m m1"
    by (rule calm_trans [OF calm_emit_quiet calm_getChildIterator [OF g]]) simp
  show ?case
  proof (cases r)
    case None
    with "2.prems"(2) g have "m' = m1" by simp
    with c1 show ?thesis by simp
  next
    case (Some children)
    with "2.prems"(2) g have "bridgeChildren fuel cc env children m1 = Inr m'" by simp
    from c1 "2.IH" [OF g [symmetric] Some "2.prems"(1) this]
    show ?thesis by (rule calm_trans)
  qed
next
  case (3 fuel cc env m)
  then show ?case by (simp add: calm_refl)
next
  case (4 fuel cc env c rest m)
  note ks = "4.prems"(1)
  note run = "4.prems"(2)
  show ?case
  proof (cases "getProperty c ''class-code'' m")
    case None
    with run have "bridgeChildren fuel cc env rest m = Inr m'" by simp
    from "4.IH"(1) [OF None ks this] show ?thesis .
  next
    case (Some a)
    show ?thesis
    proof (cases "castData m a")
      case None
      with run Some have "bridgeChildren fuel cc env rest m = Inr m'" by simp
      from "4.IH"(2) [OF Some None ks this] show ?thesis .
    next
      case bs: (Some bs)
      show ?thesis
      proof (cases "read_u32 bs")
        case None
        with run Some bs show ?thesis by simp
      next
        case code: (Some code)
        show ?thesis
        proof (cases "code = SATADevice cc \<or> code = NVMeDevice cc \<or> code = RAIDDevice cc")
          case True
          with run Some bs code obtain m1 where
            i: "internalizeDevice env c m = Inr m1"
            and r: "bridgeChildren fuel cc env rest m1 = Inr m'"
            by (auto split: sum.splits)
          from calm_internalizeDevice [OF ks i] "4.IH"(3) [OF Some bs code True i ks r]
          show ?thesis by (rule calm_trans)
        next
          case False
          show ?thesis
          proof (cases "code = PCIBridge cc")
            case nb: False
            with run Some bs code False
            have "bridgeChildren fuel cc env rest m = Inr m'" by simp
            from "4.IH"(7) [OF Some bs code False nb ks this] show ?thesis .
          next
            case True
            obtain t m1 where w: "waitFlag env ''IOPCIConfigured'' c 1000 m = (t, m1)"
              by (cases "waitFlag env ''IOPCIConfigured'' c 1000 m")
            have c1: "calm m m1" using ks w by (rule calm_waitFlag)
            show ?thesis
            proof (cases "0 < t")
              case pos: True
              with run Some bs code False True w obtain m2 where
                rb: "recurseBridge fuel cc env c m1 = Inr m2"
                and r: "bridgeChildren fuel cc env rest m2 = Inr m'"
                by (auto split: sum.splits)
              from calm_trans [OF c1 "4.IH"(4) [OF Some bs code False True w [symmetric] pos ks rb]]
                "4.IH"(5) [OF Some bs code False True w [symmetric] pos rb ks r]
              show ?thesis by (rule calm_trans)
            next
              case np: False
              with run Some bs code False True w
              have r: "bridgeChildren fuel cc env rest m1 = Inr m'" by simp
              from c1 "4.IH"(6) [OF Some bs code False True w [symmetric] np ks r]
              show ?thesis by (rule calm_trans)
            qed
          qed
        qed
      qed
    qed
  qed
qed


section \<open>The root locator\<close>

lemma waitRootConfigured_now:
  "isTrue ''IOPCIConfigured'' e m \<Longrightarrow> waitRootConfigured env e m = Some m"
  by (subst waitRootConfigured.simps) simp

lemma waitRootConfigured_later:
  "\<not> isTrue ''IOPCIConfigured'' e m \<Longrightarrow>
     waitRootConfigured env e m = waitRootConfigured env e (IOSleep env 10 m)"
  by (subst waitRootConfigured.simps) simp

lemma waitRootConfigured_polls:
  assumes "waitRootConfigured env e m = Some m'"
  shows "\<exists>k. m' = polls env k m \<and> isTrue ''IOPCIConfigured'' e m'"
proof (rule waitRootConfigured.raw_induct
    [where P = "\<lambda>env e m m'. \<exists>k. m' = polls env k m \<and> isTrue ''IOPCIConfigured'' e m'",
      OF _ assms], goal_cases)
  case (1 w env e m m')
  show ?case
  proof (cases "isTrue ''IOPCIConfigured'' e m")
    case True
    with 1(2) have "m' = m" by simp
    with True have "m' = polls env 0 m \<and> isTrue ''IOPCIConfigured'' e m'"
      by (simp add: polls_0)
    then show ?thesis by (rule exI [of _ 0])
  next
    case False
    with 1(2) have "w env e (IOSleep env 10 m) = Some m'" by simp
    from 1(1) [OF this] obtain k where
      k: "m' = polls env k (IOSleep env 10 m) \<and> isTrue ''IOPCIConfigured'' e m'"
      by (rule exE)
    from k have "m' = polls env (Suc k) m \<and> isTrue ''IOPCIConfigured'' e m'"
      by (auto simp: polls_Suc)
    then show ?thesis by (rule exI [of _ "Suc k"])
  qed
qed


lemma selected_append: "selected (xs @ ys) = selected xs @ selected ys"
  by (induction xs rule: selected.induct) simp_all

lemma selected_none: "(\<forall>r. FoundRoot r \<notin> set evs) \<Longrightarrow> selected evs = []"
  by (induction evs rule: selected.induct) auto

lemma selected_quiet: "quiet_step m m' \<Longrightarrow> selected (trace m') = selected (trace m)"
  by (auto simp: quiet_step_def selected_append selected_none)

lemma selected_calm: "calm m m' \<Longrightarrow> selected (trace m') = selected (trace m)"
  by (simp add: calm_def selected_quiet)

lemma names_calm:
  "calm m m' \<Longrightarrow> entry_name (entries (reg m') x) = entry_name (entries (reg m) x)"
  by (simp add: calm_def same_shape_def)

text \<open>A scan with \<open>ready\<close> unset stops at the first candidate, and selects nothing.\<close>

lemma scanRoots_not_ready:
  "scanRoots fuel cc env cs False found m =
     (if \<exists>c\<in>set cs. isPCName (entry_name (entries (reg m) c))
      then Inr (True, found, IOSleep env 1000 m)
      else Inr (False, found, m))"
  by (induction cs) simp_all

text \<open>A scan with \<open>ready\<close> set selects every candidate, in order.\<close>

lemma scanRoots_ready:
  "keeps_shape env \<Longrightarrow> scanRoots fuel cc env cs True found m = Inr (r, f, m') \<Longrightarrow>
     r \<and> same_shape m m'
     \<and> f = (found \<or> filter (\<lambda>c. isPCName (entry_name (entries (reg m) c))) cs \<noteq> [])
     \<and> selected (trace m')
         = selected (trace m) @ filter (\<lambda>c. isPCName (entry_name (entries (reg m) c))) cs"
proof (induction cs arbitrary: found m)
  case Nil
  then show ?case by (simp add: same_shape_refl)
next
  case (Cons c cs)
  note ks = Cons.prems(1)
  show ?case
  proof (cases "isPCName (entry_name (entries (reg m) c))")
    case False
    with Cons.prems(2) have "scanRoots fuel cc env cs True found m = Inr (r, f, m')"
      by simp
    from Cons.IH [OF ks this] False show ?thesis by simp
  next
    case True
    let ?m0 = "emit (FoundRoot c) m"
    from Cons.prems(2) True obtain m1 where
      w: "waitRootConfigured env c ?m0 = Some m1"
      by (auto split: option.splits)
    with Cons.prems(2) True obtain m2 where
      rb: "recurseBridge fuel cc env c m1 = Inr m2"
      by (auto split: sum.splits)
    from Cons.prems(2) True w rb have
      rest: "scanRoots fuel cc env cs True True m2 = Inr (r, f, m')"
      by simp
    from waitRootConfigured_polls [OF w] obtain k where "m1 = polls env k ?m0" by blast
    with calm_polls [OF ks] have c1: "calm ?m0 m1" by simp
    from calm_recurseBridge(1) [OF ks rb] have c2: "calm m1 m2" .
    from c1 c2 have c02: "calm ?m0 m2" by (rule calm_trans)
    have sh0: "same_shape m ?m0" by (rule shape_emit)
    from c02 have sh02: "same_shape ?m0 m2" by (simp add: calm_def)
    from sh0 sh02 have sh2: "same_shape m m2" by (rule same_shape_trans)
    have names: "\<And>x. entry_name (entries (reg m2) x) = entry_name (entries (reg m) x)"
      using sh2 by (simp add: same_shape_def)
    have sel2: "selected (trace m2) = selected (trace m) @ [c]"
      using selected_calm [OF c02] by (simp add: emit_def selected_append)
    from Cons.IH [OF ks rest] have
      ih: "r" "same_shape m2 m'"
        "f = (True \<or> filter (\<lambda>c. isPCName (entry_name (entries (reg m2) c))) cs \<noteq> [])"
        "selected (trace m')
           = selected (trace m2) @ filter (\<lambda>c. isPCName (entry_name (entries (reg m2) c))) cs"
      by auto
    from sh2 ih(2) have "same_shape m m'" by (rule same_shape_trans)
    with ih True sel2 show ?thesis by (simp add: names)
  qed
qed

lemma getChildIterator_plan:
  "oom m = [] \<Longrightarrow> getChildIterator e m = (Some (dt_children (entries (reg m) e)), m)"
  by (simp add: getChildIterator_def try_alloc_def)

lemma rootLoop_step:
  "rootLoop fuel cc env entry ready found repeat m =
     (case scanOnce fuel cc env entry ready found m of
        Inl f \<Rightarrow> Inl f
      | Inr (ready', found', m') \<Rightarrow>
          if repeat < 268435456 \<and> \<not> found'
          then rootLoop fuel cc env entry ready' found' (repeat + 1) m'
          else Inr (found', m'))"
  by (rule rootLoop.simps)

text \<open>Without a candidate the loop runs to the ceiling and changes nothing.\<close>

lemma rootLoop_no_candidate:
  assumes "oom m = []"
    and "\<forall>c\<in>set (dt_children (entries (reg m) entry)).
           \<not> isPCName (entry_name (entries (reg m) c))"
  shows "rootLoop fuel cc env entry False False repeat m = Inr (False, m)"
proof (induction "268435457 - repeat" arbitrary: repeat)
  case 0
  have "scanOnce fuel cc env entry False False m = Inr (False, False, m)"
    using assms by (simp add: scanOnce_def getChildIterator_plan scanRoots_not_ready)
  with 0 show ?case by (subst rootLoop_step) simp
next
  case (Suc n)
  have s: "scanOnce fuel cc env entry False False m = Inr (False, False, m)"
    using assms by (simp add: scanOnce_def getChildIterator_plan scanRoots_not_ready)
  show ?case
  proof (cases "repeat < 268435456")
    case True
    with Suc.hyps(2) have "n = 268435457 - (repeat + 1)" by simp
    from Suc.hyps(1) [OF this] s True show ?thesis
      by (subst rootLoop_step) simp
  next
    case False
    with s show ?thesis by (subst rootLoop_step) simp
  qed
qed


lemma scanOnce_plan:
  "oom m = [] \<Longrightarrow>
     scanOnce fuel cc env entry ready found m
       = scanRoots fuel cc env (dt_children (entries (reg m) entry)) ready found m"
  by (simp add: scanOnce_def getChildIterator_plan)

lemma IOSleep_oom: "oom (IOSleep env d m) = oom m"
  by (simp add: IOSleep_def)

lemma rootLoop_pause:
  assumes "oom m = []"
    and "\<exists>c\<in>set (dt_children (entries (reg m) entry)).
           isPCName (entry_name (entries (reg m) c))"
  shows "rootLoop fuel cc env entry False False 0 m
           = rootLoop fuel cc env entry True False 1 (IOSleep env 1000 m)"
  using assms
  by (subst rootLoop_step) (simp add: scanOnce_plan scanRoots_not_ready)

lemma rootLoop_select:
  assumes "oom m = []" "keeps_shape env"
    and "filter (\<lambda>c. isPCName (entry_name (entries (reg m) c)))
           (dt_children (entries (reg m) entry)) \<noteq> []"
    and "rootLoop fuel cc env entry True False repeat m = Inr (found, m')"
  shows "found \<and> selected (trace m')
           = selected (trace m) @ filter (\<lambda>c. isPCName (entry_name (entries (reg m) c)))
               (dt_children (entries (reg m) entry))"
proof -
  let ?cs = "dt_children (entries (reg m) entry)"
  from assms(4) obtain r f m1 where
    s: "scanRoots fuel cc env ?cs True False m = Inr (r, f, m1)"
    by (subst (asm) rootLoop_step)
      (auto simp: scanOnce_plan [OF assms(1)] split: sum.splits)
  from scanRoots_ready [OF assms(2) s] assms(3) have
    f: "f" and sel: "selected (trace m1)
           = selected (trace m) @ filter (\<lambda>c. isPCName (entry_name (entries (reg m) c))) ?cs"
    by auto
  from assms(4) s f have "found = f \<and> m' = m1"
    by (subst (asm) rootLoop_step) (simp add: scanOnce_plan [OF assms(1)])
  with f sel show ?thesis by simp
qed

lemma two_roots_run:
  "processRoot 1 pci_codes env_idle (machine_of ex_two_roots)
     = Inr (True, \<lparr>reg = ex_two_roots, clock = 1000,
                   trace = [Sleep 1000, FoundRoot 2, Recurse 2, FoundRoot 3, Recurse 3],
                   oom = []\<rparr>)"
proof -
  have two: "dt_root ex_two_roots = Some 0"
    "dt_children (entries ex_two_roots 0) = [2, 3]"
    "dt_children (entries ex_two_roots 2) = []"
    "dt_children (entries ex_two_roots 3) = []"
    "isPCName (entry_name (entries ex_two_roots 2))"
    "isPCName (entry_name (entries ex_two_roots 3))"
    "\<And>clk tr. isTrue ''IOPCIConfigured'' 2 \<lparr>reg = ex_two_roots, clock = clk, trace = tr, oom = []\<rparr>"
    "\<And>clk tr. isTrue ''IOPCIConfigured'' 3 \<lparr>reg = ex_two_roots, clock = clk, trace = tr, oom = []\<rparr>"
    by (simp_all add: ex_two_roots_def blank_entry_def isPCName_def isTrue_def getProperty_def
        object_at_def)
  let ?s2 = "\<lparr>reg = ex_two_roots, clock = 1000, trace = [Sleep 1000], oom = []\<rparr>"
  have "rootLoop 1 pci_codes env_idle 0 False False 0 (machine_of ex_two_roots)
          = rootLoop 1 pci_codes env_idle 0 True False 1
              (IOSleep env_idle 1000 (machine_of ex_two_roots))"
    by (rule rootLoop_pause) (simp_all add: machine_of_def two)
  also have "IOSleep env_idle 1000 (machine_of ex_two_roots) = ?s2"
    by (simp add: IOSleep_def env_idle_def machine_of_def)
  also have "rootLoop 1 pci_codes env_idle 0 True False 1 ?s2
      = Inr (True, \<lparr>reg = ex_two_roots, clock = 1000,
               trace = [Sleep 1000, FoundRoot 2, Recurse 2, FoundRoot 3, Recurse 3],
               oom = []\<rparr>)"
    by (subst rootLoop_step)
      (simp add: scanOnce_plan two emit_def waitRootConfigured_now getChildIterator_def
        try_alloc_def)
  finally show "processRoot 1 pci_codes env_idle (machine_of ex_two_roots)
     = Inr (True, \<lparr>reg = ex_two_roots, clock = 1000,
                   trace = [Sleep 1000, FoundRoot 2, Recurse 2, FoundRoot 3, Recurse 3],
                   oom = []\<rparr>)"
    by (simp add: processRoot_def machine_of_def two)
qed

lemma one_root_run:
  "processRoot 1 pci_codes env_idle (machine_of ex_one_root)
     = Inr (True, \<lparr>reg = ex_one_root, clock = 1000,
                   trace = [Sleep 1000, FoundRoot 3, Recurse 3], oom = []\<rparr>)"
proof -
  have one: "dt_root ex_one_root = Some 0"
    "dt_children (entries ex_one_root 0) = [2, 3]"
    "dt_children (entries ex_one_root 3) = []"
    "\<not> isPCName (entry_name (entries ex_one_root 2))"
    "isPCName (entry_name (entries ex_one_root 3))"
    "\<And>clk tr. isTrue ''IOPCIConfigured'' 3 \<lparr>reg = ex_one_root, clock = clk, trace = tr, oom = []\<rparr>"
    by (simp_all add: ex_one_root_def blank_entry_def isPCName_def isTrue_def getProperty_def
        object_at_def)
  let ?s1 = "\<lparr>reg = ex_one_root, clock = 1000, trace = [Sleep 1000], oom = []\<rparr>"
  have "rootLoop 1 pci_codes env_idle 0 False False 0 (machine_of ex_one_root)
          = rootLoop 1 pci_codes env_idle 0 True False 1
              (IOSleep env_idle 1000 (machine_of ex_one_root))"
    by (rule rootLoop_pause) (simp_all add: machine_of_def one)
  also have "IOSleep env_idle 1000 (machine_of ex_one_root) = ?s1"
    by (simp add: IOSleep_def env_idle_def machine_of_def)
  also have "rootLoop 1 pci_codes env_idle 0 True False 1 ?s1
      = Inr (True, \<lparr>reg = ex_one_root, clock = 1000,
               trace = [Sleep 1000, FoundRoot 3, Recurse 3], oom = []\<rparr>)"
    by (subst rootLoop_step)
      (simp add: scanOnce_plan one emit_def waitRootConfigured_now getChildIterator_def
        try_alloc_def)
  finally show "processRoot 1 pci_codes env_idle (machine_of ex_one_root)
     = Inr (True, \<lparr>reg = ex_one_root, clock = 1000,
                   trace = [Sleep 1000, FoundRoot 3, Recurse 3], oom = []\<rparr>)"
    by (simp add: processRoot_def machine_of_def one)
qed

lemma no_root_run:
  "processRoot fuel pci_codes env_idle (machine_of ex_no_root) = Inr (False, machine_of ex_no_root)"
proof -
  have "rootLoop fuel pci_codes env_idle 0 False False 0 (machine_of ex_no_root)
          = Inr (False, machine_of ex_no_root)"
    by (rule rootLoop_no_candidate)
      (simp_all add: machine_of_def ex_no_root_def blank_entry_def isPCName_def)
  then show ?thesis
    by (simp add: processRoot_def machine_of_def ex_no_root_def)
qed

lemma keeps_shape_idle: "keeps_shape env_idle"
  by (simp add: keeps_shape_def env_idle_def)

text \<open>
  Two PCI roots: the first one is selected, before the second. One PCI root: it is
  selected.
\<close>

theorem skip_first_counterexample:
  "processRoot 1 pci_codes env_idle (machine_of ex_two_roots)
     = Inr (True, \<lparr>reg = ex_two_roots, clock = 1000,
                   trace = [Sleep 1000, FoundRoot 2, Recurse 2, FoundRoot 3, Recurse 3],
                   oom = []\<rparr>)
   \<and> processRoot 1 pci_codes env_idle (machine_of ex_one_root)
     = Inr (True, \<lparr>reg = ex_one_root, clock = 1000,
                   trace = [Sleep 1000, FoundRoot 3, Recurse 3], oom = []\<rparr>)"
  using two_roots_run one_root_run by (rule conjI)

text \<open>No PCI root: \<open>processRoot\<close> gives up at the ceiling, and \<open>start\<close> returns true.\<close>

theorem root_not_found_counterexample:
  "processRoot 0 pci_codes env_idle (machine_of ex_no_root) = Inr (False, machine_of ex_no_root)
   \<and> start True 0 pci_codes env_idle (machine_of ex_no_root)
     = Inr (True, emit Register (machine_of ex_no_root))"
  using no_root_run [of 0] by (simp add: start_def)

text \<open>
  C2, as the code has it. \<open>start\<close> returns false only when \<open>IOService::start\<close> does.
  Otherwise, whenever \<open>processRoot\<close> returns, \<open>start\<close> registers the service and
  returns true, whether a root was selected or not; with no child of the root named
  \<open>PC...\<close>, \<open>processRoot\<close> runs to the ceiling, selects nothing and changes nothing,
  and \<open>start\<close> returns true all the same.
\<close>

theorem start_reports_success:
  "start False fuel cc env m = Inr (False, m)
   \<and> (\<forall>r m'. start True fuel cc env m = Inr (r, m') \<longrightarrow>
         r \<and> (\<exists>found m1. processRoot fuel cc env m = Inr (found, m1)
                 \<and> m' = emit Register m1))
   \<and> (\<forall>found m1. processRoot fuel cc env m = Inr (found, m1) \<longrightarrow>
         start True fuel cc env m = Inr (True, emit Register m1))
   \<and> (oom m = [] \<and> dt_root (reg m) = Some entry
        \<and> (\<forall>c\<in>set (dt_children (entries (reg m) entry)).
              \<not> isPCName (entry_name (entries (reg m) c))) \<longrightarrow>
        processRoot fuel cc env m = Inr (False, m)
        \<and> start True fuel cc env m = Inr (True, emit Register m))"
proof (intro conjI allI impI)
  show "start False fuel cc env m = Inr (False, m)"
    by (simp add: start_def)
next
  fix r m'
  assume "start True fuel cc env m = Inr (r, m')"
  then show "r" and "\<exists>found m1. processRoot fuel cc env m = Inr (found, m1)
                 \<and> m' = emit Register m1"
    by (auto simp: start_def split: sum.splits)
next
  fix found m1
  assume "processRoot fuel cc env m = Inr (found, m1)"
  then show "start True fuel cc env m = Inr (True, emit Register m1)"
    by (simp add: start_def)
next
  assume h: "oom m = [] \<and> dt_root (reg m) = Some entry
        \<and> (\<forall>c\<in>set (dt_children (entries (reg m) entry)).
              \<not> isPCName (entry_name (entries (reg m) c)))"
  then have "rootLoop fuel cc env entry False False 0 m = Inr (False, m)"
    by (intro rootLoop_no_candidate) auto
  with h show p: "processRoot fuel cc env m = Inr (False, m)"
    by (simp add: processRoot_def)
  then show "start True fuel cc env m = Inr (True, emit Register m)"
    by (simp add: start_def)
qed

theorem start_reports_success_witness:
  "processRoot 0 pci_codes env_idle (machine_of ex_no_root) = Inr (False, machine_of ex_no_root)
   \<and> start True 0 pci_codes env_idle (machine_of ex_no_root)
     = Inr (True, emit Register (machine_of ex_no_root))
   \<and> start False 0 pci_codes env_idle (machine_of ex_no_root) = Inr (False, machine_of ex_no_root)"
proof -
  have h: "oom (machine_of ex_no_root) = [] \<and> dt_root (reg (machine_of ex_no_root)) = Some 0
        \<and> (\<forall>c\<in>set (dt_children (entries (reg (machine_of ex_no_root)) 0)).
              \<not> isPCName (entry_name (entries (reg (machine_of ex_no_root)) c)))"
    by (simp add: machine_of_def ex_no_root_def blank_entry_def isPCName_def)
  note t = start_reports_success [of 0 pci_codes env_idle "machine_of ex_no_root" 0]
  from t [THEN conjunct1]
    t [THEN conjunct2, THEN conjunct2, THEN conjunct2, THEN mp, OF h]
  show ?thesis by blast
qed


section \<open>The passes over the service plane\<close>

lemma getNextObjects_total:
  assumes "finite D" "\<forall>x\<in>D. set (ch x) \<subseteq> D"
  shows "(\<forall>l\<in>set stack. set l \<subseteq> D) \<Longrightarrow> set acc \<subseteq> D \<Longrightarrow> set done = set acc \<Longrightarrow>
     (\<forall>x\<in>set done. set (ch x) \<subseteq> set acc \<union> \<Union>(set ` set stack)) \<Longrightarrow>
     \<exists>ds. getNextObjects ch stack done acc = Some ds \<and> set ds \<subseteq> D
          \<and> set acc \<union> \<Union>(set ` set stack) \<subseteq> set ds
          \<and> (\<forall>x\<in>set ds. set (ch x) \<subseteq> set ds)"
proof (induction "(stack, done, acc)" arbitrary: stack "done" acc
    rule: wf_induct_rule [OF wf_measures
      [of "[\<lambda>(s, d, a). card (D - set d), \<lambda>(s, d, a). sum_list (map (\<lambda>l. Suc (length l)) s)]"]])
  case 1
  show ?case
  proof (cases stack)
    case Nil
    then have "getNextObjects ch stack done acc = Some (rev acc)"
      by (subst getNextObjects.simps) simp
    with Nil "1.prems" show ?thesis by auto
  next
    case (Cons top rest)
    show ?thesis
    proof (cases top)
      case Nil
      have step: "getNextObjects ch stack done acc = getNextObjects ch rest done acc"
        using Cons Nil by (subst getNextObjects.simps) simp
      have "((rest, done, acc), (stack, done, acc))
              \<in> measures [\<lambda>(s, d, a). card (D - set d),
                           \<lambda>(s, d, a). sum_list (map (\<lambda>l. Suc (length l)) s)]"
        using Cons Nil by simp
      from "1.hyps" [OF this] "1.prems" Cons Nil
      obtain ds where "getNextObjects ch rest done acc = Some ds" "set ds \<subseteq> D"
        "set acc \<union> \<Union>(set ` set rest) \<subseteq> set ds" "\<forall>x\<in>set ds. set (ch x) \<subseteq> set ds"
        by auto
      with step Cons Nil show ?thesis by auto
    next
      case (Cons x xs)
      note top = Cons
      have xD: "x \<in> D" using "1.prems"(1) \<open>stack = top # rest\<close> top by auto
      show ?thesis
      proof (cases "x \<in> set done")
        case True
        have step: "getNextObjects ch stack done acc
                      = getNextObjects ch (xs # rest) done (x # acc)"
          using \<open>stack = top # rest\<close> top True by (subst getNextObjects.simps) simp
        have m: "((xs # rest, done, x # acc), (stack, done, acc))
              \<in> measures [\<lambda>(s, d, a). card (D - set d),
                           \<lambda>(s, d, a). sum_list (map (\<lambda>l. Suc (length l)) s)]"
          using \<open>stack = top # rest\<close> top by simp
        have p1: "\<forall>l\<in>set (xs # rest). set l \<subseteq> D"
          using "1.prems"(1) \<open>stack = top # rest\<close> top by auto
        have p2: "set (x # acc) \<subseteq> D" using "1.prems"(2) xD by simp
        have p3: "set done = set (x # acc)" using "1.prems"(3) True by auto
        have p4: "\<forall>y\<in>set done. set (ch y) \<subseteq> set (x # acc) \<union> \<Union>(set ` set (xs # rest))"
          using "1.prems"(4) \<open>stack = top # rest\<close> top by auto
        from "1.hyps" [OF m p1 p2 p3 p4]
        obtain ds where "getNextObjects ch (xs # rest) done (x # acc) = Some ds" "set ds \<subseteq> D"
          "set (x # acc) \<union> \<Union>(set ` set (xs # rest)) \<subseteq> set ds"
          "\<forall>x\<in>set ds. set (ch x) \<subseteq> set ds"
          by auto
        with step \<open>stack = top # rest\<close> top show ?thesis by auto
      next
        case False
        have step: "getNextObjects ch stack done acc
                      = getNextObjects ch (ch x # xs # rest) (x # done) (x # acc)"
          using \<open>stack = top # rest\<close> top False by (subst getNextObjects.simps) simp
        have "D - set (x # done) \<subset> D - set done"
          using xD False by auto
        then have "card (D - set (x # done)) < card (D - set done)"
          using assms(1) by (intro psubset_card_mono) auto
        then have m: "((ch x # xs # rest, x # done, x # acc), (stack, done, acc))
              \<in> measures [\<lambda>(s, d, a). card (D - set d),
                           \<lambda>(s, d, a). sum_list (map (\<lambda>l. Suc (length l)) s)]"
          by simp
        have p1: "\<forall>l\<in>set (ch x # xs # rest). set l \<subseteq> D"
          using "1.prems"(1) \<open>stack = top # rest\<close> top assms(2) xD by auto
        have p2: "set (x # acc) \<subseteq> D" using "1.prems"(2) xD by simp
        have p3: "set (x # done) = set (x # acc)" using "1.prems"(3) by simp
        have p4: "\<forall>y\<in>set (x # done).
                    set (ch y) \<subseteq> set (x # acc) \<union> \<Union>(set ` set (ch x # xs # rest))"
          using "1.prems"(4) \<open>stack = top # rest\<close> top by auto
        from "1.hyps" [OF m p1 p2 p3 p4]
        obtain ds where
          "getNextObjects ch (ch x # xs # rest) (x # done) (x # acc) = Some ds" "set ds \<subseteq> D"
          "set (x # acc) \<union> \<Union>(set ` set (ch x # xs # rest)) \<subseteq> set ds"
          "\<forall>x\<in>set ds. set (ch x) \<subseteq> set ds"
          by auto
        with step \<open>stack = top # rest\<close> top show ?thesis by auto
      qed
    qed
  qed
qed

lemma svc_descendants_closed:
  "x \<in> svc_descendants r e \<Longrightarrow> set (svc_children (entries r x)) \<subseteq> svc_descendants r e"
  by (auto simp: svc_descendants_def svc_edges_def intro: trancl_into_trancl)

lemma svc_descendants_children:
  "set (svc_children (entries r e)) \<subseteq> svc_descendants r e"
  by (auto simp: svc_descendants_def svc_edges_def)

lemma svc_descendants_least:
  assumes "set (svc_children (entries r e)) \<subseteq> S"
    and "\<forall>x\<in>S. set (svc_children (entries r x)) \<subseteq> S"
  shows "svc_descendants r e \<subseteq> S"
proof
  fix y
  assume "y \<in> svc_descendants r e"
  then have "(e, y) \<in> (svc_edges r)\<^sup>+" by (simp add: svc_descendants_def)
  then show "y \<in> S"
  proof (induction rule: trancl_induct)
    case (base y)
    with assms(1) show ?case by (auto simp: svc_edges_def)
  next
    case (step y z)
    with assms(2) show ?case by (auto simp: svc_edges_def)
  qed
qed

text \<open>On a finite plane the iterator ends, and delivers the descendants of the entry.\<close>

lemma iterateServicePlane_descendants:
  assumes "finite (svc_descendants r e)"
  shows "\<exists>ds. iterateServicePlane r e = Some ds \<and> set ds = svc_descendants r e"
proof -
  let ?ch = "\<lambda>x. svc_children (entries r x)"
  let ?D = "svc_descendants r e"
  have closed: "\<forall>x\<in>?D. set (?ch x) \<subseteq> ?D"
    using svc_descendants_closed by blast
  have "\<exists>ds. getNextObjects ?ch [?ch e] [] [] = Some ds \<and> set ds \<subseteq> ?D
          \<and> set [] \<union> \<Union>(set ` set [?ch e]) \<subseteq> set ds
          \<and> (\<forall>x\<in>set ds. set (?ch x) \<subseteq> set ds)"
    by (rule getNextObjects_total [OF assms closed])
      (use svc_descendants_children in auto)
  then obtain ds where ds: "getNextObjects ?ch [?ch e] [] [] = Some ds" "set ds \<subseteq> ?D"
    "set (?ch e) \<subseteq> set ds" "\<forall>x\<in>set ds. set (?ch x) \<subseteq> set ds"
    by auto
  from svc_descendants_least [OF ds(3,4)] ds(2) have "set ds = ?D" by auto
  with ds(1) show ?thesis by (simp add: iterateServicePlane_def)
qed

lemma svc_descendants_shape:
  "same_shape m m' \<Longrightarrow> svc_descendants (reg m') e = svc_descendants (reg m) e"
  by (simp add: svc_descendants_def svc_edges_def same_shape_def)

lemma iterateServicePlane_shape:
  "same_shape m m' \<Longrightarrow> iterateServicePlane (reg m') e = iterateServicePlane (reg m) e"
  by (simp add: iterateServicePlane_def same_shape_def)

lemma ex_drive_iterate: "iterateServicePlane ex_drive 5 = Some [6, 7]"
  by (simp add: iterateServicePlane_def getNextObjects.simps ex_drive_def blank_entry_def)

lemma updateOtherProperties_oom: "oom m = [] \<Longrightarrow> oom (updateOtherProperties p m) = []"
proof (cases p)
  case None
  assume "oom m = []"
  with None show ?thesis by simp
next
  case (Some e)
  assume o: "oom m = []"
  have "oom (setProperty e ''Physical Interconnect Location'' (length (heap (reg m)))
          (with_strings e m)) = []"
    using o by (simp add: setProperty_oom with_strings_facts(2))
  then show ?thesis
    unfolding Some updateOtherProperties_plan [OF o]
    by (intro setBuiltIn_oom updateProtocol_oom updateIcon_oom)
qed

lemma updateDrivers_oom: "oom m = [] \<Longrightarrow> oom (updateDrivers e ds m) = []"
  by (induction ds arbitrary: m) (simp_all add: updateOtherProperties_oom)

lemma waitFlag_oom: "waitFlag env key e n m = (t, m') \<Longrightarrow> oom m' = oom m"
  using waitFlag_polls [of env key e n m] by (auto simp: oom_polls)

lemma finite_polls:
  assumes "\<forall>t d r. finite (svc_descendants r e) \<longrightarrow> finite (svc_descendants (env t d r) e)"
    and "finite (svc_descendants (reg m) e)"
  shows "finite (svc_descendants (reg (polls env k m)) e)"
  using assms by (induction k) (simp_all add: polls_0 polls_Suc' IOSleep_def)

text \<open>One pass of the loop, when the iterator can be allocated and ends.\<close>

lemma one_pass:
  assumes "oom m = []" "pass < 3" "finite (svc_descendants (reg m) e)"
  shows "\<exists>ds. iterateServicePlane (reg m) e = Some ds \<and> set ds = svc_descendants (reg m) e
     \<and> passes env e pass m
         = passes env e (pass + 1)
             (if pass < 2
              then IOSleep env 100 (updateDrivers e ds (updateOtherProperties (Some e) m))
              else updateDrivers e ds (updateOtherProperties (Some e) m))
     \<and> oom (updateDrivers e ds (updateOtherProperties (Some e) m)) = []
     \<and> same_shape m (updateDrivers e ds (updateOtherProperties (Some e) m))
     \<and> trace (updateDrivers e ds (updateOtherProperties (Some e) m))
         = trace m @ Update e # map Update (filter (\<lambda>d. d \<noteq> e) ds)"
proof -
  let ?a = "updateOtherProperties (Some e) m"
  from iterateServicePlane_descendants [OF assms(3)] obtain ds where
    ds: "iterateServicePlane (reg m) e = Some ds" "set ds = svc_descendants (reg m) e"
    by blast
  have sa: "same_shape m ?a" by (rule shape_updateOtherProperties)
  have oa: "oom ?a = []" using assms(1) by (rule updateOtherProperties_oom)
  have ia: "iterateServicePlane (reg ?a) e = Some ds"
    using iterateServicePlane_shape [OF sa, of e] ds(1) by simp
  have "passes env e pass m
         = passes env e (pass + 1)
             (if pass < 2 then IOSleep env 100 (updateDrivers e ds ?a)
              else updateDrivers e ds ?a)"
    using assms(2) ia by (simp add: passes_step try_alloc_plan [OF oa])
  moreover have "oom (updateDrivers e ds ?a) = []"
    using oa by (rule updateDrivers_oom)
  moreover have "same_shape m (updateDrivers e ds ?a)"
    using sa shape_updateDrivers by (rule same_shape_trans)
  moreover have "trace (updateDrivers e ds ?a)
         = trace m @ Update e # map Update (filter (\<lambda>d. d \<noteq> e) ds)"
    by (simp add: updateDrivers_trace updateOtherProperties_trace)
  ultimately show ?thesis using ds by blast
qed

lemma ex_drive_descendants: "finite (svc_descendants ex_drive 5)"
proof -
  have "svc_descendants ex_drive 5 \<subseteq> {6, 7}"
    by (rule svc_descendants_least) (simp_all add: ex_drive_def blank_entry_def)
  then show ?thesis by (rule finite_subset) simp
qed


section \<open>The values of the properties\<close>

subsection \<open>The cells as functions\<close>

lemma cell_key_inj: "cell_key c = cell_key c' \<Longrightarrow> c = c'"
  by (cases c; cases c') simp_all

lemma set_key_idem: "set_key k v (set_key k v l) = set_key k v l"
  by (induction l) auto

lemma cell_value_idem: "cell_value n c (cell_value n c v) = cell_value n c v"
proof (cases c)
  case Icon
  then show ?thesis
    by (auto simp: set_key_idem split: option.splits pvalue.splits)
next
  case Protocol
  then show ?thesis
    by (cases n) (auto simp: set_key_idem leaf_def split: option.splits pvalue.splits)
qed simp_all

lemma write_cell_idem: "write_cell n c (write_cell n c s) = write_cell n c s"
  by (simp add: write_cell_def cell_value_idem)

lemma write_cell_commute:
  "write_cell n c (write_cell n c' s) = write_cell n c' (write_cell n c s)"
proof (cases "c = c'")
  case True
  then show ?thesis by simp
next
  case False
  then have "fst c \<noteq> fst c' \<or> cell_key (snd c) \<noteq> cell_key (snd c')"
    using cell_key_inj [of "snd c" "snd c'"] by (cases c; cases c') auto
  then show ?thesis
    by (auto simp: write_cell_def fun_eq_iff)
qed

lemma write_cell_run: "write_cell n c (run_cells n cs s) = run_cells n cs (write_cell n c s)"
  by (induction cs) (simp_all add: write_cell_commute)

lemma run_cells_append: "run_cells n (cs @ cs') s = run_cells n cs (run_cells n cs' s)"
  by (induction cs) simp_all

text \<open>Running a list of cell writes twice is running it once.\<close>

lemma run_cells_idem: "run_cells n cs (run_cells n cs s) = run_cells n cs s"
proof (induction cs arbitrary: s)
  case Nil
  then show ?case by simp
next
  case (Cons c cs)
  have "run_cells n (c # cs) (run_cells n (c # cs) s)
          = write_cell n c (run_cells n cs (write_cell n c (run_cells n cs s)))"
    by simp
  also have "\<dots> = write_cell n c (write_cell n c (run_cells n cs (run_cells n cs s)))"
    by (simp add: write_cell_run)
  also have "\<dots> = write_cell n c (run_cells n cs s)"
    by (simp add: write_cell_idem Cons.IH)
  finally show ?case by simp
qed

subsection \<open>Views and the growing heap\<close>

lemma view_append:
  "heap_closed h \<Longrightarrow> a < length h \<Longrightarrow> view n (h @ ext) a = view n h a"
proof (induction n arbitrary: a)
  case 0
  then show ?case by simp
next
  case (Suc n)
  show ?case
  proof (cases "h ! a")
    case (OSDictionary kvs)
    with Suc.prems have "\<forall>p\<in>set kvs. snd p < length h"
      by (auto simp: heap_closed_def)
    with Suc.IH [OF Suc.prems(1)]
    have "map (\<lambda>p. (fst p, view n (h @ ext) (snd p))) kvs
            = map (\<lambda>p. (fst p, view n h (snd p))) kvs"
      by simp
    with OSDictionary Suc.prems(2) show ?thesis by (simp add: nth_append)
  qed (use Suc.prems(2) in \<open>simp_all add: nth_append\<close>)
qed

lemma heap_closed_append:
  assumes "heap_closed h"
    and "\<And>kvs. obj = OSDictionary kvs \<Longrightarrow> \<forall>p\<in>set kvs. snd p < length h"
  shows "heap_closed (h @ [obj])"
  unfolding heap_closed_def
proof (intro allI impI)
  fix a kvs
  assume a: "a < length (h @ [obj])" and d: "(h @ [obj]) ! a = OSDictionary kvs"
  show "\<forall>p\<in>set kvs. snd p < length (h @ [obj])"
  proof (cases "a < length h")
    case True
    with d assms(1) have "\<forall>p\<in>set kvs. snd p < length h"
      by (auto simp: heap_closed_def nth_append)
    then show ?thesis by auto
  next
    case False
    with a d have "obj = OSDictionary kvs" by (simp add: nth_append)
    from assms(2) [OF this] show ?thesis by auto
  qed
qed

lemma well_formed_reg: "reg m' = reg m \<Longrightarrow> well_formed m' = well_formed m"
  by (simp add: well_formed_def getProperty_def)

lemma property_state_reg: "reg m' = reg m \<Longrightarrow> property_state n m' = property_state n m"
  by (simp add: property_state_def getProperty_def fun_eq_iff)

text \<open>A new object at the end of the heap changes no property.\<close>

lemma append_object:
  assumes "well_formed m"
    and "\<And>kvs. obj = OSDictionary kvs \<Longrightarrow> \<forall>p\<in>set kvs. snd p < length (heap (reg m))"
    and "reg m' = (reg m)\<lparr>heap := heap (reg m) @ [obj]\<rparr>"
  shows "well_formed m'" and "property_state n m' = property_state n m"
proof -
  have c: "heap_closed (heap (reg m))" using assms(1) by (simp add: well_formed_def)
  have v: "\<And>e key a. getProperty e key m = Some a \<Longrightarrow> a < length (heap (reg m))"
    using assms(1) by (auto simp: well_formed_def)
  have g: "\<And>e key. getProperty e key m' = getProperty e key m"
    using assms(3) by (simp add: getProperty_def)
  show "well_formed m'"
    unfolding well_formed_def
    using heap_closed_append [OF c assms(2)] v by (auto simp: assms(3) g less_Suc_eq)
  show "property_state n m' = property_state n m"
  proof (intro ext)
    fix e key
    show "property_state n m' e key = property_state n m e key"
    proof (cases "getProperty e key m")
      case None
      then show ?thesis by (simp add: property_state_def g)
    next
      case (Some a)
      with v have "a < length (heap (reg m))" by blast
      with view_append [OF c this] Some show ?thesis
        by (simp add: property_state_def g assms(3))
    qed
  qed
qed

text \<open>Storing a pointer to an object that is on the heap changes that one property.\<close>

lemma store_pointer:
  assumes "well_formed m" "a < length (heap (reg m))"
  shows "well_formed (setProperty e key a m)"
    and "property_state n (setProperty e key a m)
           = (property_state n m)(e := (property_state n m e)(key \<mapsto> view n (heap (reg m)) a))"
proof -
  show "well_formed (setProperty e key a m)"
    using assms by (auto simp: well_formed_def setProperty_def getProperty_def)
  show "property_state n (setProperty e key a m)
           = (property_state n m)(e := (property_state n m e)(key \<mapsto> view n (heap (reg m)) a))"
    by (auto simp: property_state_def setProperty_def getProperty_def fun_eq_iff)
qed

lemma view_string:
  "a < length h \<Longrightarrow> h ! a = OSString s \<Longrightarrow> view n h a = leaf n (VString s)"
  by (cases n) (simp_all add: leaf_def)

lemma view_data:
  "a < length h \<Longrightarrow> h ! a = OSData bs \<Longrightarrow> view n h a = leaf n (VData bs)"
  by (cases n) (simp_all add: leaf_def)

lemma view_dict:
  "a < length h \<Longrightarrow> h ! a = OSDictionary kvs \<Longrightarrow>
     view n h a = leaf n (VDict (map (\<lambda>p. (fst p, view (n - 1) h (snd p))) kvs))"
  by (cases n) (simp_all add: leaf_def)

lemma map_set_key:
  "map (\<lambda>p. (fst p, f (snd p))) (set_key k v kvs)
     = set_key k (f v) (map (\<lambda>p. (fst p, f (snd p))) kvs)"
  by (induction kvs) auto

lemma set_key_pointers:
  "\<forall>p\<in>set kvs. snd p < n \<Longrightarrow> v < n \<Longrightarrow> \<forall>p\<in>set (set_key k v kvs). snd p < (n :: nat)"
  by (induction kvs) auto

text \<open>A new dictionary at the end of the heap, stored under \<open>key\<close>.\<close>

lemma stored_copy_state:
  assumes "well_formed m" "\<forall>p\<in>set kvs. snd p < length (heap (reg m))"
  shows "well_formed (stored_copy e key kvs m)"
    and "property_state n (stored_copy e key kvs m)
           = (property_state n m)(e := (property_state n m e)
               (key \<mapsto> leaf n (VDict (map (\<lambda>p. (fst p, view (n - 1) (heap (reg m)) (snd p))) kvs))))"
proof -
  let ?h = "heap (reg m)"
  let ?m1 = "m\<lparr>oom := tl (oom m), reg := (reg m)\<lparr>heap := ?h @ [OSDictionary kvs]\<rparr>\<rparr>"
  have r: "reg ?m1 = (reg m)\<lparr>heap := ?h @ [OSDictionary kvs]\<rparr>" by simp
  have w1: "well_formed ?m1" and p1: "property_state n ?m1 = property_state n m"
    using append_object [OF assms(1) _ r] assms(2) by auto
  have len: "length ?h < length (heap (reg ?m1))" by simp
  have c: "heap_closed ?h" using assms(1) by (simp add: well_formed_def)
  have "view n (heap (reg ?m1)) (length ?h)
          = leaf n (VDict (map (\<lambda>p. (fst p, view (n - 1) (?h @ [OSDictionary kvs]) (snd p))) kvs))"
    by (subst view_dict [where kvs = kvs]) simp_all
  also have "map (\<lambda>p. (fst p, view (n - 1) (?h @ [OSDictionary kvs]) (snd p))) kvs
               = map (\<lambda>p. (fst p, view (n - 1) ?h (snd p))) kvs"
    using assms(2) view_append [OF c] by simp
  finally have v: "view n (heap (reg ?m1)) (length ?h)
          = leaf n (VDict (map (\<lambda>p. (fst p, view (n - 1) ?h (snd p))) kvs))" .
  show "well_formed (stored_copy e key kvs m)"
    unfolding stored_copy_def using w1 len by (rule store_pointer(1))
  show "property_state n (stored_copy e key kvs m)
           = (property_state n m)(e := (property_state n m e)
               (key \<mapsto> leaf n (VDict (map (\<lambda>p. (fst p, view (n - 1) ?h (snd p))) kvs))))"
    unfolding stored_copy_def store_pointer(2) [OF w1 len] v p1 ..
qed


subsection \<open>Each step writes one cell\<close>

lemma object_at_iff:
  "(object_at m a = Some obj) = (a < length (heap (reg m)) \<and> heap (reg m) ! a = obj)"
  by (auto simp: object_at_def)

lemma well_formed_oom: "well_formed (m\<lparr>oom := bs\<rparr>) = well_formed m"
  by (rule well_formed_reg) simp

lemma property_state_oom: "property_state n (m\<lparr>oom := bs\<rparr>) = property_state n m"
  by (rule property_state_reg) simp

lemma write_cell_same:
  "cell_value n (snd c) (s (fst c) (cell_key (snd c))) = s (fst c) (cell_key (snd c))
     \<Longrightarrow> write_cell n c s = s"
  by (simp add: write_cell_def)

lemma dict_pointers:
  "well_formed m \<Longrightarrow> object_at m a = Some (OSDictionary kvs) \<Longrightarrow>
     \<forall>p\<in>set kvs. snd p < length (heap (reg m))"
  by (auto simp: well_formed_def heap_closed_def object_at_iff)

lemma view_not_dict:
  assumes "a < length h" "\<And>kvs. h ! a \<noteq> OSDictionary kvs"
  shows "view n h a \<noteq> VDict l"
proof (cases n)
  case 0
  then show ?thesis by simp
next
  case (Suc j)
  with assms(1) assms(2) show ?thesis
    by (cases "h ! a") (simp_all, blast)
qed

lemma icon_refines:
  assumes "well_formed m" "oom m = []"
    and "object_at m ic = Some (OSString ''Internal.icns'')"
  shows "well_formed (updateIcon e ic m)"
    and "property_state n (updateIcon e ic m) = write_cell n (e, Icon) (property_state n m)"
proof -
  let ?h = "heap (reg m)"
  let ?s = "property_state n m"
  from assms(3) have ic: "ic < length ?h" "?h ! ic = OSString ''Internal.icns''"
    by (simp_all add: object_at_iff)
  have "well_formed (updateIcon e ic m)
        \<and> property_state n (updateIcon e ic m) = write_cell n (e, Icon) ?s"
  proof (cases "\<exists>icon kvs. getProperty e ''IOMediaIcon'' m = Some icon
                   \<and> castDictionary m icon = Some kvs")
    case True
    then obtain icon kvs where p: "getProperty e ''IOMediaIcon'' m = Some icon"
      and c: "castDictionary m icon = Some kvs" by blast
    from c have o: "object_at m icon = Some (OSDictionary kvs)"
      by (simp add: castDictionary_iff)
    then have v: "icon < length ?h" "?h ! icon = OSDictionary kvs"
      by (simp_all add: object_at_iff)
    from updateIcon_cases [of e m ic] p c assms(2)
    have u: "updateIcon e ic m
               = stored_copy e ''IOMediaIcon'' (set_key ''IOBundleResourceFile'' ic kvs) m"
      by auto
    have ptr: "\<forall>p\<in>set (set_key ''IOBundleResourceFile'' ic kvs). snd p < length ?h"
      using dict_pointers [OF assms(1) o] ic(1) by (rule set_key_pointers)
    note st = stored_copy_state(1) [OF assms(1) ptr, where e = e and key = "''IOMediaIcon''"]
      stored_copy_state(2) [OF assms(1) ptr, where e = e and key = "''IOMediaIcon''" and n = n]
    have old: "?s e ''IOMediaIcon''
                 = Some (leaf n (VDict (map (\<lambda>p. (fst p, view (n - 1) ?h (snd p))) kvs)))"
      using p view_dict [OF v] by (simp add: property_state_def)
    have new: "leaf n (VDict (map (\<lambda>p. (fst p, view (n - 1) ?h (snd p)))
                   (set_key ''IOBundleResourceFile'' ic kvs)))
               = leaf n (VDict (set_key ''IOBundleResourceFile''
                   (leaf (n - 1) (VString ''Internal.icns''))
                   (map (\<lambda>p. (fst p, view (n - 1) ?h (snd p))) kvs)))"
      by (simp add: map_set_key view_string [OF ic])
    have "property_state n (updateIcon e ic m) = write_cell n (e, Icon) ?s"
      unfolding u st(2) new using old
      by (cases n) (simp_all add: write_cell_def leaf_def)
    with st(1) u show ?thesis by simp
  next
    case False
    with updateIcon_cases [of e m ic] assms(2) have u: "updateIcon e ic m = m"
      by auto
    have "cell_value n Icon (?s e ''IOMediaIcon'') = ?s e ''IOMediaIcon''"
    proof (cases "getProperty e ''IOMediaIcon'' m")
      case None
      then show ?thesis by (simp add: property_state_def)
    next
      case (Some icon)
      with assms(1) have v: "icon < length ?h" by (auto simp: well_formed_def)
      from False Some have "castDictionary m icon = None" by auto
      with v have "\<And>kvs. ?h ! icon \<noteq> OSDictionary kvs"
        by (auto simp: castDictionary_def object_at_def)
      from view_not_dict [OF v this] Some show ?thesis
        by (auto simp: property_state_def split: pvalue.splits)
    qed
    then have "write_cell n (e, Icon) ?s = ?s"
      by (intro write_cell_same) simp
    with u assms(1) show ?thesis by simp
  qed
  then show "well_formed (updateIcon e ic m)"
    and "property_state n (updateIcon e ic m) = write_cell n (e, Icon) ?s"
    by simp_all
qed

lemma protocol_refines:
  assumes "well_formed m" "oom m = []"
    and "object_at m i = Some (OSString ''Internal'')"
  shows "well_formed (updateProtocol e i m)"
    and "property_state n (updateProtocol e i m) = write_cell n (e, Protocol) (property_state n m)"
proof -
  let ?h = "heap (reg m)"
  let ?s = "property_state n m"
  let ?K = "''Protocol Characteristics''"
  let ?L = "''Physical Interconnect Location''"
  from assms(3) have i: "i < length ?h" "?h ! i = OSString ''Internal''"
    by (simp_all add: object_at_iff)
  have "well_formed (updateProtocol e i m)
        \<and> property_state n (updateProtocol e i m) = write_cell n (e, Protocol) ?s"
  proof (cases "getProperty e ?K m")
    case None
    from updateProtocol_cases [of e m i] None assms(2)
    have u: "updateProtocol e i m = stored_copy e ?K [(?L, i)] m"
      by auto
    have ptr: "\<forall>p\<in>set [(?L, i)]. snd p < length ?h" using i(1) by simp
    note st = stored_copy_state(1) [OF assms(1) ptr, where e = e and key = ?K]
      stored_copy_state(2) [OF assms(1) ptr, where e = e and key = ?K and n = n]
    have old: "?s e ?K = None" using None by (simp add: property_state_def)
    have "property_state n (updateProtocol e i m) = write_cell n (e, Protocol) ?s"
      unfolding u st(2)
      by (simp add: write_cell_def old view_string [OF i])
    with st(1) u show ?thesis by simp
  next
    case (Some proto)
    with assms(1) have v: "proto < length ?h" by (auto simp: well_formed_def)
    show ?thesis
    proof (cases "castDictionary m proto")
      case (Some kvs)
      note c = this
      from c have o: "object_at m proto = Some (OSDictionary kvs)"
        by (simp add: castDictionary_iff)
      then have d: "?h ! proto = OSDictionary kvs" by (simp add: object_at_iff)
      from updateProtocol_cases [of e m i] \<open>getProperty e ?K m = Some proto\<close> c assms(2)
      have u: "updateProtocol e i m = stored_copy e ?K (set_key ?L i kvs) m"
        by auto
      have ptr: "\<forall>p\<in>set (set_key ?L i kvs). snd p < length ?h"
        using dict_pointers [OF assms(1) o] i(1) by (rule set_key_pointers)
      note st = stored_copy_state(1) [OF assms(1) ptr, where e = e and key = ?K]
      stored_copy_state(2) [OF assms(1) ptr, where e = e and key = ?K and n = n]
      have old: "?s e ?K = Some (leaf n (VDict (map (\<lambda>p. (fst p, view (n - 1) ?h (snd p))) kvs)))"
        using \<open>getProperty e ?K m = Some proto\<close> view_dict [OF v d]
        by (simp add: property_state_def)
      have new: "leaf n (VDict (map (\<lambda>p. (fst p, view (n - 1) ?h (snd p))) (set_key ?L i kvs)))
               = leaf n (VDict (set_key ?L (leaf (n - 1) (VString ''Internal''))
                   (map (\<lambda>p. (fst p, view (n - 1) ?h (snd p))) kvs)))"
        by (simp add: map_set_key view_string [OF i])
      have "property_state n (updateProtocol e i m) = write_cell n (e, Protocol) ?s"
        unfolding u st(2) new using old
        by (cases n) (simp_all add: write_cell_def leaf_def)
      with st(1) u show ?thesis by simp
    next
      case None
      from updateProtocol_cases [of e m i] \<open>getProperty e ?K m = Some proto\<close> None assms(2)
      have u: "updateProtocol e i m = m" by auto
      from None v have "\<And>kvs. ?h ! proto \<noteq> OSDictionary kvs"
        by (auto simp: castDictionary_def object_at_def)
      from view_not_dict [OF v this] \<open>getProperty e ?K m = Some proto\<close>
      have "cell_value n Protocol (?s e ?K) = ?s e ?K"
        by (auto simp: property_state_def split: pvalue.splits)
      then have "write_cell n (e, Protocol) ?s = ?s"
        by (intro write_cell_same) simp
      with u assms(1) show ?thesis by simp
    qed
  qed
  then show "well_formed (updateProtocol e i m)"
    and "property_state n (updateProtocol e i m) = write_cell n (e, Protocol) ?s"
    by simp_all
qed

lemma builtin_refines:
  assumes "well_formed m" "oom m = []"
  shows "well_formed (setBuiltIn (Some e) m)"
    and "property_state n (setBuiltIn (Some e) m) = write_cell n (e, BuiltIn) (property_state n m)"
proof -
  let ?h = "heap (reg m)"
  let ?m1 = "m\<lparr>oom := tl (oom m), reg := (reg m)\<lparr>heap := ?h @ [OSData [1]]\<rparr>\<rparr>"
  from setBuiltIn_cases [of m e] assms(2)
  have u: "setBuiltIn (Some e) m = setProperty e ''built-in'' (length ?h) ?m1"
    by auto
  have r: "reg ?m1 = (reg m)\<lparr>heap := ?h @ [OSData [1]]\<rparr>" by simp
  have w1: "well_formed ?m1" and p1: "property_state n ?m1 = property_state n m"
    using append_object [OF assms(1) _ r] by auto
  have len: "length ?h < length (heap (reg ?m1))" by simp
  have v: "view n (heap (reg ?m1)) (length ?h) = leaf n (VData [1])"
    by (rule view_data) simp_all
  show "well_formed (setBuiltIn (Some e) m)"
    unfolding u using w1 len by (rule store_pointer(1))
  show "property_state n (setBuiltIn (Some e) m) = write_cell n (e, BuiltIn) (property_state n m)"
    unfolding u store_pointer(2) [OF w1 len] v p1
    by (simp add: write_cell_def)
qed

lemma location_refines:
  assumes "well_formed m"
  shows "well_formed (setProperty e ''Physical Interconnect Location'' (length (heap (reg m)))
            (with_strings e m))"
    and "property_state n (setProperty e ''Physical Interconnect Location''
            (length (heap (reg m))) (with_strings e m))
           = write_cell n (e, Location) (property_state n m)"
proof -
  let ?h = "heap (reg m)"
  let ?m1 = "m\<lparr>reg := (reg m)\<lparr>heap := ?h @ [OSString ''Internal'']\<rparr>\<rparr>"
  have w1: "well_formed ?m1" and p1: "property_state n ?m1 = property_state n m"
    using append_object [OF assms, of "OSString ''Internal''" ?m1] by auto
  have r2: "reg (with_strings e m)
              = (reg ?m1)\<lparr>heap := heap (reg ?m1) @ [OSString ''Internal.icns'']\<rparr>"
    by (simp add: with_strings_def)
  have w2: "well_formed (with_strings e m)"
    and p2: "property_state n (with_strings e m) = property_state n m"
    using append_object [OF w1 _ r2] p1 by auto
  have len: "length ?h < length (heap (reg (with_strings e m)))"
    by (simp add: with_strings_def)
  have v: "view n (heap (reg (with_strings e m))) (length ?h) = leaf n (VString ''Internal'')"
    by (rule view_string) (simp_all add: with_strings_def nth_append)
  show "well_formed (setProperty e ''Physical Interconnect Location'' (length ?h)
            (with_strings e m))"
    using w2 len by (rule store_pointer(1))
  show "property_state n (setProperty e ''Physical Interconnect Location''
            (length ?h) (with_strings e m))
           = write_cell n (e, Location) (property_state n m)"
    unfolding store_pointer(2) [OF w2 len] v p2
    by (simp add: write_cell_def)
qed


section \<open>Running twice\<close>

subsection \<open>The effect of a run on the values\<close>

lemma reg_polls_idle: "static env \<Longrightarrow> reg (polls env k m) = reg m"
  by (rule reg_polls_static) (simp add: static_def)

lemma effect_same:
  "well_formed m \<Longrightarrow> oom m = [] \<Longrightarrow> reg m' = reg m \<Longrightarrow> oom m' = oom m \<Longrightarrow> effect m m' []"
proof -
  assume w: "well_formed m" and o: "oom m = []" and r: "reg m' = reg m" and o': "oom m' = oom m"
  have "well_formed m'" using well_formed_reg [OF r] w by simp
  moreover have "\<forall>n. property_state n m' = run_cells n [] (property_state n m)"
    using property_state_reg [OF r] by simp
  moreover have "heap_grows m m'" using r by (simp add: heap_grows_def)
  moreover have "same_shape m m'" using r by (rule same_shape_reg)
  moreover have "\<forall>e k. k \<notin> range cell_key \<longrightarrow> getProperty e k m' = getProperty e k m"
    using r by (simp add: getProperty_def)
  moreover have "oom m' = []" using o o' by simp
  ultimately show ?thesis by (simp add: effect_def)
qed

lemma effect_trans:
  "effect m m' cs \<Longrightarrow> effect m' m'' cs' \<Longrightarrow> effect m m'' (cs' @ cs)"
proof -
  assume a: "effect m m' cs" and b: "effect m' m'' cs'"
  have "heap_grows m m''"
    using a b by (auto simp: effect_def elim: heap_grows_trans)
  moreover have "same_shape m m''"
    by (rule same_shape_trans [of m m' m'']) (use a b in \<open>simp_all add: effect_def\<close>)
  moreover have "\<forall>e k. k \<notin> range cell_key \<longrightarrow> getProperty e k m'' = getProperty e k m"
    using a b by (simp add: effect_def)
  moreover have "\<forall>n. property_state n m'' = run_cells n (cs' @ cs) (property_state n m)"
    using a b by (simp add: effect_def run_cells_append)
  moreover have "well_formed m''" "oom m'' = []"
    using b by (simp_all add: effect_def)
  ultimately show ?thesis by (simp add: effect_def)
qed

lemma effect_good: "effect m m' cs \<Longrightarrow> well_formed m' \<and> oom m' = []"
  by (simp add: effect_def)

lemma not_a_cell: "''IOPCIResourced'' \<notin> range cell_key"
proof
  assume "''IOPCIResourced'' \<in> range cell_key"
  then obtain c where "cell_key c = ''IOPCIResourced''" by auto
  then show False by (cases c) simp_all
qed

lemma effect_flag:
  assumes "effect m m' cs" "well_formed m"
  shows "isTrue ''IOPCIResourced'' e m' = isTrue ''IOPCIResourced'' e m"
proof -
  have g: "getProperty e ''IOPCIResourced'' m' = getProperty e ''IOPCIResourced'' m"
    using assms(1) not_a_cell by (simp add: effect_def)
  show ?thesis
  proof (cases "getProperty e ''IOPCIResourced'' m")
    case None
    with g show ?thesis by (simp add: isTrue_def)
  next
    case (Some a)
    with assms(2) have "a < length (heap (reg m))" by (auto simp: well_formed_def)
    moreover have "heap_grows m m'" using assms(1) by (simp add: effect_def)
    ultimately have "object_at m' a = object_at m a" by (rule heap_grows_old [rotated])
    with g Some show ?thesis by (simp add: isTrue_def)
  qed
qed

lemma effect_iterate:
  "effect m m' cs \<Longrightarrow> iterateServicePlane (reg m') e = iterateServicePlane (reg m) e"
  by (simp add: effect_def iterateServicePlane_shape)

lemma effect_script: "effect m m' cs \<Longrightarrow> well_formed m \<Longrightarrow> script_of e m' = script_of e m"
  by (simp add: script_of_def effect_flag effect_iterate)

lemma key_not_cell: "k \<notin> range cell_key \<Longrightarrow> k \<noteq> cell_key c"
  by auto

lemma effect_builtin:
  assumes "well_formed m" "oom m = []"
  shows "effect m (setBuiltIn (Some e) m) [(e, BuiltIn)]"
  unfolding effect_def
proof (intro conjI allI impI)
  fix e' k
  assume "k \<notin> range cell_key"
  from key_not_cell [OF this, of BuiltIn]
  show "getProperty e' k (setBuiltIn (Some e) m) = getProperty e' k m"
    by (simp add: setBuiltIn_get)
qed (simp_all add: builtin_refines [OF assms] setBuiltIn_oom [OF assms(2)] setBuiltIn_grows
    shape_setBuiltIn)

lemma effect_update:
  assumes "well_formed m" "oom m = []"
  shows "effect m (updateOtherProperties (Some e) m) (update_cells e)"
proof -
  define L where "L = length (heap (reg m))"
  define m3 where "m3 = setProperty e ''Physical Interconnect Location'' L (with_strings e m)"
  define m4 where "m4 = updateIcon e (Suc L) m3"
  define m5 where "m5 = updateProtocol e L m4"
  define m6 where "m6 = setBuiltIn (Some e) m5"
  have m6: "updateOtherProperties (Some e) m = m6"
    by (simp add: updateOtherProperties_plan [OF assms(2)] m6_def m5_def m4_def m3_def L_def)
  have w3: "well_formed m3"
    and p3: "\<And>n. property_state n m3 = write_cell n (e, Location) (property_state n m)"
    unfolding m3_def L_def by (rule location_refines [OF assms(1)])+
  have o3: "oom m3 = []"
    by (simp add: m3_def setProperty_oom with_strings_facts(2) assms(2))
  have s_i: "object_at m3 L = Some (OSString ''Internal'')"
    by (simp add: m3_def setProperty_object with_strings_facts(4) L_def)
  have s_ic: "object_at m3 (Suc L) = Some (OSString ''Internal.icns'')"
    by (simp add: m3_def setProperty_object with_strings_facts(5) L_def)
  have w4: "well_formed m4"
    and p4: "\<And>n. property_state n m4 = write_cell n (e, Icon) (property_state n m3)"
    unfolding m4_def by (rule icon_refines [OF w3 o3 s_ic])+
  have o4: "oom m4 = []" unfolding m4_def using o3 by (rule updateIcon_oom)
  have "heap_grows m3 m4" unfolding m4_def by (rule updateIcon_grows)
  from this s_i have s_i4: "object_at m4 L = Some (OSString ''Internal'')"
    by (rule heap_grows_object)
  have w5: "well_formed m5"
    and p5: "\<And>n. property_state n m5 = write_cell n (e, Protocol) (property_state n m4)"
    unfolding m5_def by (rule protocol_refines [OF w4 o4 s_i4])+
  have o5: "oom m5 = []" unfolding m5_def using o4 by (rule updateProtocol_oom)
  have w6: "well_formed m6"
    and p6: "\<And>n. property_state n m6 = write_cell n (e, BuiltIn) (property_state n m5)"
    unfolding m6_def by (rule builtin_refines [OF w5 o5])+
  have o6: "oom m6 = []" unfolding m6_def using o5 by (rule setBuiltIn_oom)
  have g: "heap_grows m m6"
    unfolding m6_def m5_def m4_def m3_def
    by (rule heap_grows_trans [OF heap_grows_trans [OF heap_grows_trans [OF heap_grows_trans
          [OF with_strings_facts(1) setProperty_grows] updateIcon_grows] updateProtocol_grows]
          setBuiltIn_grows])
  have sh: "same_shape m m6"
    unfolding m6 [symmetric] by (rule shape_updateOtherProperties)
  have fr: "\<forall>e' k. k \<notin> range cell_key \<longrightarrow> getProperty e' k m6 = getProperty e' k m"
  proof (intro allI impI)
    fix e' k
    assume k: "k \<notin> range cell_key"
    from key_not_cell [OF k, of Location] key_not_cell [OF k, of Icon]
      key_not_cell [OF k, of Protocol] key_not_cell [OF k, of BuiltIn]
    show "getProperty e' k m6 = getProperty e' k m"
      by (simp add: m6_def m5_def m4_def m3_def setBuiltIn_get updateProtocol_get updateIcon_get
          setProperty_get with_strings_facts(3))
  qed
  have ps: "\<forall>n. property_state n m6 = run_cells n (update_cells e) (property_state n m)"
    by (simp add: update_cells_def p6 p5 p4 p3)
  from w6 o6 g sh fr ps show ?thesis
    unfolding m6 effect_def by (intro conjI)
qed

lemma driver_cells_Cons:
  "driver_cells e (d # ds)
     = driver_cells e ds @ (if d \<noteq> e then update_cells d else [])"
  by (simp add: driver_cells_def)

lemma effect_drivers:
  "well_formed m \<Longrightarrow> oom m = [] \<Longrightarrow> effect m (updateDrivers e ds m) (driver_cells e ds)"
proof (induction ds arbitrary: m)
  case Nil
  then show ?case by (simp add: driver_cells_def effect_same)
next
  case (Cons d ds)
  let ?m1 = "if d \<noteq> e then updateOtherProperties (Some d) m else m"
  have e1: "effect m ?m1 (if d \<noteq> e then update_cells d else [])"
    using Cons.prems by (simp add: effect_update effect_same)
  from effect_good [OF e1] have "effect ?m1 (updateDrivers e ds ?m1) (driver_cells e ds)"
    by (intro Cons.IH) simp_all
  with e1 have "effect m (updateDrivers e ds ?m1)
      (driver_cells e ds @ (if d \<noteq> e then update_cells d else []))"
    by (rule effect_trans)
  then show ?case by (simp only: driver_cells_Cons updateDrivers.simps)
qed

lemma effect_sleep:
  "static env \<Longrightarrow> well_formed m \<Longrightarrow> oom m = [] \<Longrightarrow>
     effect m (IOSleep env d m) []"
  by (rule effect_same) (simp_all add: IOSleep_def static_def)

lemma effect_polls:
  "static env \<Longrightarrow> well_formed m \<Longrightarrow> oom m = [] \<Longrightarrow>
     effect m (polls env k m) []"
  by (rule effect_same) (simp_all add: reg_polls_idle oom_polls)

text \<open>One pass of the loop, on the values.\<close>

lemma effect_pass:
  assumes "static env" "well_formed m" "oom m = []"
    and "iterateServicePlane (reg m) e = Some ds" "pass < 3"
  shows "\<exists>m1. passes env e pass m = passes env e (pass + 1) m1
           \<and> effect m m1 (driver_cells e ds @ update_cells e)"
proof -
  let ?a = "updateOtherProperties (Some e) m"
  let ?p = "updateDrivers e ds ?a"
  let ?m1 = "if pass < 2 then IOSleep env 100 ?p else ?p"
  have ea: "effect m ?a (update_cells e)" using assms(2,3) by (rule effect_update)
  note ga = effect_good [OF ea]
  have ep: "effect ?a ?p (driver_cells e ds)"
    using ga by (intro effect_drivers) simp_all
  from ea ep have emp: "effect m ?p (driver_cells e ds @ update_cells e)"
    by (rule effect_trans)
  note gp = effect_good [OF emp]
  have "effect ?p ?m1 []"
    using gp by (auto intro: effect_sleep [OF assms(1)] effect_same)
  with emp have e1: "effect m ?m1 ([] @ (driver_cells e ds @ update_cells e))"
    by (rule effect_trans)
  have ia: "iterateServicePlane (reg ?a) e = Some ds"
    using effect_iterate [OF ea, of e] assms(4) by simp
  have "passes env e pass m = passes env e (pass + 1) ?m1"
    using assms(5) ia ga by (simp add: passes_step try_alloc_plan)
  with e1 show ?thesis by auto
qed

lemma effect_passes:
  assumes "static env" "well_formed m" "oom m = []"
    and "iterateServicePlane (reg m) e = Some ds"
  shows "\<exists>m'. passes env e 0 m = Inr m'
           \<and> effect m m' ((driver_cells e ds @ update_cells e)
                @ (driver_cells e ds @ update_cells e) @ (driver_cells e ds @ update_cells e))"
proof -
  let ?c = "driver_cells e ds @ update_cells e"
  from effect_pass [OF assms, of 0] obtain m1 where
    1: "passes env e 0 m = passes env e 1 m1" "effect m m1 ?c" by auto
  note g1 = effect_good [OF 1(2)]
  have i1: "iterateServicePlane (reg m1) e = Some ds"
    using effect_iterate [OF 1(2), of e] assms(4) by simp
  from effect_pass [OF assms(1) g1 [THEN conjunct1] g1 [THEN conjunct2] i1, of 1] obtain m2 where
    2: "passes env e 1 m1 = passes env e 2 m2" "effect m1 m2 ?c" by auto
  note g2 = effect_good [OF 2(2)]
  have i2: "iterateServicePlane (reg m2) e = Some ds"
    using effect_iterate [OF 2(2), of e] i1 by simp
  from effect_pass [OF assms(1) g2 [THEN conjunct1] g2 [THEN conjunct2] i2, of 2] obtain m3 where
    3: "passes env e 2 m2 = passes env e 3 m3" "effect m2 m3 ?c" by auto
  have "passes env e 0 m = Inr m3"
    using 1(1) 2(1) 3(1) by (simp add: passes_done)
  moreover have "effect m m3 (?c @ ?c @ ?c)"
    using effect_trans [OF effect_trans [OF 1(2) 2(2)] 3(2)] by simp
  ultimately show ?thesis by blast
qed

lemma isTrue_reg: "reg m' = reg m \<Longrightarrow> isTrue key e m' = isTrue key e m"
  by (simp add: isTrue_def getProperty_def object_at_def split: option.splits)

lemma effect_entry:
  assumes "well_formed m" "oom m = []"
  shows "effect m (setBuiltIn (Some e) (emit (Internalize e) m)) [(e, BuiltIn)]"
proof -
  have a: "effect m (emit (Internalize e) m) []"
    using assms by (rule effect_same) (simp_all add: emit_def)
  note g = effect_good [OF a]
  have "effect (emit (Internalize e) m) (setBuiltIn (Some e) (emit (Internalize e) m))
          [(e, BuiltIn)]"
    using g by (intro effect_builtin) simp_all
  with a have "effect m (setBuiltIn (Some e) (emit (Internalize e) m)) ([(e, BuiltIn)] @ [])"
    by (rule effect_trans)
  then show ?thesis by simp
qed

text \<open>
  With nothing else changing the registry, a run that finds the flag unset gives up after
  the wait.
\<close>

lemma run_static_timeout:
  assumes "static env" "well_formed m" "oom m = []"
    and "\<not> isTrue ''IOPCIResourced'' e m"
  shows "\<exists>m'. internalizeDevice env e m = Inr m' \<and> effect m m' (script_of e m)"
proof -
  let ?b = "setBuiltIn (Some e) (emit (Internalize e) m)"
  have eb: "effect m ?b [(e, BuiltIn)]" using assms(2,3) by (rule effect_entry)
  note gb = effect_good [OF eb]
  have fb: "\<not> isTrue ''IOPCIResourced'' e ?b"
    using effect_flag [OF eb assms(2), of e] assms(4) by simp
  have "\<forall>k<2000. \<not> isTrue ''IOPCIResourced'' e (polls env k ?b)"
    using fb isTrue_reg [OF reg_polls_idle [OF assms(1)]] by simp
  then have run: "internalizeDevice env e m = Inr (polls env 2000 ?b)"
    by (rule internalizeDevice_timeout)
  have "effect ?b (polls env 2000 ?b) []"
    using assms(1) gb by (intro effect_polls) simp_all
  with eb have "effect m (polls env 2000 ?b) ([] @ [(e, BuiltIn)])"
    by (rule effect_trans)
  then have "effect m (polls env 2000 ?b) (script_of e m)"
    using assms(4) by (simp add: script_of_def)
  with run show ?thesis by blast
qed

text \<open>A run that finds the flag set does not wait, and makes the three passes.\<close>

lemma run_static_passes:
  assumes "static env" "well_formed m" "oom m = []"
    and "isTrue ''IOPCIResourced'' e m"
  shows "internalizeDevice env e m
           = passes env e 0 (setBuiltIn (Some e) (emit (Internalize e) m))"
proof -
  let ?b = "setBuiltIn (Some e) (emit (Internalize e) m)"
  have eb: "effect m ?b [(e, BuiltIn)]" using assms(2,3) by (rule effect_entry)
  have fb: "isTrue ''IOPCIResourced'' e ?b"
    using effect_flag [OF eb assms(2), of e] assms(4) by simp
  then have "waitFlag env ''IOPCIResourced'' e 2000 ?b = (2000, ?b)"
    by (subst waitFlag.simps) simp
  then show ?thesis by (simp add: internalizeDevice_def)
qed

lemma run_static_resourced:
  assumes "static env" "well_formed m" "oom m = []"
    and "isTrue ''IOPCIResourced'' e m"
    and "iterateServicePlane (reg m) e = Some ds"
  shows "\<exists>m'. internalizeDevice env e m = Inr m' \<and> effect m m' (script_of e m)"
proof -
  let ?b = "setBuiltIn (Some e) (emit (Internalize e) m)"
  let ?c = "driver_cells e ds @ update_cells e"
  have eb: "effect m ?b [(e, BuiltIn)]" using assms(2,3) by (rule effect_entry)
  note gb = effect_good [OF eb]
  have ib: "iterateServicePlane (reg ?b) e = Some ds"
    using effect_iterate [OF eb, of e] assms(5) by simp
  from effect_passes [OF assms(1) gb [THEN conjunct1] gb [THEN conjunct2] ib]
  obtain m' where p: "passes env e 0 ?b = Inr m'" and e': "effect ?b m' (?c @ ?c @ ?c)"
    by blast
  from eb e' have "effect m m' ((?c @ ?c @ ?c) @ [(e, BuiltIn)])"
    by (rule effect_trans)
  then have "effect m m' (script_of e m)"
    using assms(4,5) by (simp add: script_of_def)
  moreover have "internalizeDevice env e m = Inr m'"
    using run_static_passes [OF assms(1-4)] p by simp
  ultimately show ?thesis by blast
qed

text \<open>With an iterator that does not return, the run does not return.\<close>

lemma run_static_stuck:
  assumes "static env" "well_formed m" "oom m = []"
    and "isTrue ''IOPCIResourced'' e m"
    and "iterateServicePlane (reg m) e = None"
  shows "internalizeDevice env e m = Inl NoReturn"
proof -
  let ?b = "setBuiltIn (Some e) (emit (Internalize e) m)"
  let ?a = "updateOtherProperties (Some e) ?b"
  have eb: "effect m ?b [(e, BuiltIn)]" using assms(2,3) by (rule effect_entry)
  note gb = effect_good [OF eb]
  have ea: "effect ?b ?a (update_cells e)"
    using gb by (intro effect_update) simp_all
  note ga = effect_good [OF ea]
  have "iterateServicePlane (reg ?a) e = None"
    using effect_iterate [OF ea, of e] effect_iterate [OF eb, of e] assms(5) by simp
  then have "passes env e 0 ?b = Inl NoReturn"
    using ga by (simp add: passes_step try_alloc_plan)
  then show ?thesis
    using run_static_passes [OF assms(1-4)] by simp
qed

lemma run_static:
  assumes "static env" "well_formed m" "oom m = []"
    and "internalizeDevice env e m = Inr m1"
  shows "effect m m1 (script_of e m)"
    and "isTrue ''IOPCIResourced'' e m \<Longrightarrow> iterateServicePlane (reg m) e \<noteq> None"
proof -
  show it: "iterateServicePlane (reg m) e \<noteq> None" if "isTrue ''IOPCIResourced'' e m"
  proof
    assume "iterateServicePlane (reg m) e = None"
    from run_static_stuck [OF assms(1-3) that this] assms(4) show False by simp
  qed
  show "effect m m1 (script_of e m)"
  proof (cases "isTrue ''IOPCIResourced'' e m")
    case True
    from it [OF True] obtain ds where "iterateServicePlane (reg m) e = Some ds" by auto
    from run_static_resourced [OF assms(1-3) True this] assms(4) show ?thesis by auto
  next
    case False
    from run_static_timeout [OF assms(1-3) False] assms(4) show ?thesis by auto
  qed
qed

lemma run_static_returns:
  assumes "static env" "well_formed m" "oom m = []"
    and "isTrue ''IOPCIResourced'' e m \<longrightarrow> iterateServicePlane (reg m) e \<noteq> None"
  shows "\<exists>m'. internalizeDevice env e m = Inr m' \<and> effect m m' (script_of e m)"
proof (cases "isTrue ''IOPCIResourced'' e m")
  case True
  with assms(4) obtain ds where "iterateServicePlane (reg m) e = Some ds" by auto
  from run_static_resourced [OF assms(1-3) True this] show ?thesis .
next
  case False
  from run_static_timeout [OF assms(1-3) False] show ?thesis .
qed

lemma effect_state:
  "effect m m' cs \<Longrightarrow> property_state n m' = run_cells n cs (property_state n m)"
  by (simp add: effect_def)


subsection \<open>The values after one pass\<close>

lemma write_cell_at:
  "write_cell n (y, c') s x (cell_key c)
     = (if x = y \<and> c' = c then cell_value n c (s x (cell_key c)) else s x (cell_key c))"
  by (auto simp: write_cell_def dest: cell_key_inj)

lemma run_cells_at:
  "run_cells n cs s x (cell_key c)
     = (if (x, c) \<in> set cs then cell_value n c (s x (cell_key c)) else s x (cell_key c))"
proof (induction cs)
  case Nil
  then show ?case by simp
next
  case (Cons a cs)
  obtain y c' where a: "a = (y, c')" by (cases a)
  show ?case
    unfolding a run_cells.simps write_cell_at Cons.IH
    by (auto simp: cell_value_idem)
qed

lemma update_cells_set: "((x, c) \<in> set (update_cells y)) = (x = y)"
  by (cases c) (auto simp: update_cells_def)

lemma driver_cells_set: "((x, c) \<in> set (driver_cells e ds)) = (x \<in> set ds \<and> x \<noteq> e)"
  by (auto simp: driver_cells_def update_cells_set)

lemma pass_effect:
  assumes "well_formed s" "oom s = []"
  shows "effect s (updateDrivers e ds (updateOtherProperties (Some e) s))
           (driver_cells e ds @ update_cells e)"
proof -
  let ?a = "updateOtherProperties (Some e) s"
  have ea: "effect s ?a (update_cells e)" using assms by (rule effect_update)
  note ga = effect_good [OF ea]
  have "effect ?a (updateDrivers e ds ?a) (driver_cells e ds)"
    using ga by (intro effect_drivers) simp_all
  with ea show ?thesis by (rule effect_trans)
qed

lemma pass_values:
  assumes "well_formed s" "oom s = []"
  shows "pass_written e ds s (updateDrivers e ds (updateOtherProperties (Some e) s))"
  using effect_state [OF pass_effect [OF assms]]
  unfolding pass_written_def
  by (auto simp: run_cells_at update_cells_set driver_cells_set)


lemma ex_drive_well_formed: "well_formed (machine_of ex_drive)"
  by (simp add: well_formed_def heap_closed_def getProperty_def machine_of_def ex_drive_def
      blank_entry_def)

lemma ex_media_well_formed: "well_formed (machine_of ex_media)"
  by (simp add: well_formed_def heap_closed_def getProperty_def machine_of_def ex_media_def
      blank_entry_def less_Suc_eq nth_Cons')

lemma static_idle: "static env_idle"
  by (simp add: static_def env_idle_def)

text \<open>
  C8. Let nothing else change the registry, no allocation fail, and no pointer of the
  registry point outside the heap. Then, whatever the properties are before:
  if the service plane below the device is finite, \<open>internalizeDevice\<close> returns;
  whenever \<open>internalizeDevice\<close> returns, a second run on the machine it leaves returns
  too, and after it every property of every entry has the value it had after the first
  run, to any depth of nested dictionaries; and after a second
  \<open>updateOtherProperties\<close> on an entry every property of every entry has the value it
  had after the first.
\<close>

theorem annotation_idempotent:
  assumes "static env" "well_formed m" "oom m = []"
  shows "(finite (svc_descendants (reg m) e) \<longrightarrow> (\<exists>m1. internalizeDevice env e m = Inr m1))
     \<and> (\<forall>m1. internalizeDevice env e m = Inr m1 \<longrightarrow>
           (\<exists>m2. internalizeDevice env e m1 = Inr m2
              \<and> (\<forall>n. property_state n m2 = property_state n m1)))
     \<and> (\<forall>n. property_state n
                (updateOtherProperties (Some e) (updateOtherProperties (Some e) m))
              = property_state n (updateOtherProperties (Some e) m))"
proof (intro conjI allI impI)
  assume "finite (svc_descendants (reg m) e)"
  from iterateServicePlane_descendants [OF this]
  have "isTrue ''IOPCIResourced'' e m \<longrightarrow> iterateServicePlane (reg m) e \<noteq> None" by auto
  from run_static_returns [OF assms this]
  show "\<exists>m1. internalizeDevice env e m = Inr m1" by blast
next
  fix m1
  assume r1: "internalizeDevice env e m = Inr m1"
  note e1 = run_static(1) [OF assms r1]
  note g1 = effect_good [OF e1]
  have s1: "script_of e m1 = script_of e m" using e1 assms(2) by (rule effect_script)
  have "isTrue ''IOPCIResourced'' e m1 \<longrightarrow> iterateServicePlane (reg m1) e \<noteq> None"
    using run_static(2) [OF assms r1] effect_flag [OF e1 assms(2), of e]
      effect_iterate [OF e1, of e] by simp
  from run_static_returns [OF assms(1) g1 [THEN conjunct1] g1 [THEN conjunct2] this]
  obtain m2 where r2: "internalizeDevice env e m1 = Inr m2"
    and e2: "effect m1 m2 (script_of e m)"
    unfolding s1 by blast
  have "property_state n m2 = property_state n m1" for n
    by (simp only: effect_state [OF e2] effect_state [OF e1] run_cells_idem)
  with r2 show "\<exists>m2. internalizeDevice env e m1 = Inr m2
      \<and> (\<forall>n. property_state n m2 = property_state n m1)" by blast
next
  fix n
  let ?u = "updateOtherProperties (Some e) m"
  have e1: "effect m ?u (update_cells e)" using assms(2,3) by (rule effect_update)
  note g1 = effect_good [OF e1]
  have e2: "effect ?u (updateOtherProperties (Some e) ?u) (update_cells e)"
    using g1 by (intro effect_update) simp_all
  show "property_state n (updateOtherProperties (Some e) ?u) = property_state n ?u"
    by (simp only: effect_state [OF e2] effect_state [OF e1] run_cells_idem)
qed


theorem annotation_idempotent_witness:
  "static env_idle \<and> well_formed (machine_of ex_drive) \<and> oom (machine_of ex_drive) = []
   \<and> (\<exists>m1 m2. internalizeDevice env_idle 5 (machine_of ex_drive) = Inr m1
         \<and> internalizeDevice env_idle 5 m1 = Inr m2
         \<and> (\<forall>n. property_state n m2 = property_state n m1))
   \<and> property_state 2
        (updateOtherProperties (Some 7) (updateOtherProperties (Some 7) (machine_of ex_media)))
      = property_state 2 (updateOtherProperties (Some 7) (machine_of ex_media))"
proof -
  let ?M = "machine_of ex_drive"
  have o: "oom ?M = []" by (simp add: machine_of_def)
  have fin: "finite (svc_descendants (reg ?M) 5)"
    using ex_drive_descendants by (simp add: machine_of_def)
  note t = annotation_idempotent [OF static_idle ex_drive_well_formed o, of 5]
  from t [THEN conjunct1, rule_format, OF fin] obtain m1 where
    1: "internalizeDevice env_idle 5 ?M = Inr m1" by (rule exE)
  from t [THEN conjunct2, THEN conjunct1, rule_format, OF 1] obtain m2 where
    2: "internalizeDevice env_idle 5 m1 = Inr m2" "\<forall>n. property_state n m2 = property_state n m1"
    by (elim exE conjE)
  have om: "oom (machine_of ex_media) = []" by (simp add: machine_of_def)
  note u = annotation_idempotent [OF static_idle ex_media_well_formed om, of 7, THEN conjunct2,
      THEN conjunct2, rule_format, of 2]
  from 1 2 u static_idle ex_drive_well_formed o show ?thesis by blast
qed

text \<open>
  C6. When the wait ends with \<open>timeout\<close> positive, no allocation fails and the
  service plane below the device is finite and stays finite, \<open>internalizeDevice\<close>
  makes three passes and returns. In each pass \<open>updateOtherProperties\<close> is entered for
  the device and then, in the order of the recursive iterator, for the entries it
  delivers other than the device; these are the descendants of the device in the service
  plane as it is at that pass. There is a sleep of 100 ms after the first and after the
  second pass, and none after the third. When no pointer of the registry points outside
  the heap at the start of a pass, the pass leaves the four properties of the device and
  of every delivered entry with the values that \<open>cell_value\<close> gives them
  (\<open>pass_written\<close>): the location a string \<open>Internal\<close>, \<open>built-in\<close> the blob 01,
  the dictionaries with their member set.
\<close>

theorem three_passes:
  assumes "oom m = []"
    and "finite (svc_descendants (reg m) e)"
    and "\<forall>t d r. finite (svc_descendants r e) \<longrightarrow> finite (svc_descendants (env t d r) e)"
    and "waitFlag env ''IOPCIResourced'' e 2000 (setBuiltIn (Some e) (emit (Internalize e) m))
           = (t, m0)"
    and "0 < t"
  shows "\<exists>d1 d2 d3 p1 p2 p3.
     iterateServicePlane (reg m0) e = Some d1 \<and> set d1 = svc_descendants (reg m0) e
     \<and> p1 = updateDrivers e d1 (updateOtherProperties (Some e) m0)
     \<and> iterateServicePlane (reg (IOSleep env 100 p1)) e = Some d2
     \<and> set d2 = svc_descendants (reg (IOSleep env 100 p1)) e
     \<and> p2 = updateDrivers e d2 (updateOtherProperties (Some e) (IOSleep env 100 p1))
     \<and> iterateServicePlane (reg (IOSleep env 100 p2)) e = Some d3
     \<and> set d3 = svc_descendants (reg (IOSleep env 100 p2)) e
     \<and> p3 = updateDrivers e d3 (updateOtherProperties (Some e) (IOSleep env 100 p2))
     \<and> internalizeDevice env e m = Inr p3
     \<and> trace p3 = trace m0
         @ Update e # map Update (filter (\<lambda>d. d \<noteq> e) d1)
         @ Sleep 100 # Update e # map Update (filter (\<lambda>d. d \<noteq> e) d2)
         @ Sleep 100 # Update e # map Update (filter (\<lambda>d. d \<noteq> e) d3)
     \<and> (well_formed m0 \<longrightarrow> pass_written e d1 m0 p1)
     \<and> (well_formed (IOSleep env 100 p1) \<longrightarrow> pass_written e d2 (IOSleep env 100 p1) p2)
     \<and> (well_formed (IOSleep env 100 p2) \<longrightarrow> pass_written e d3 (IOSleep env 100 p2) p3)"
proof -
  let ?b = "setBuiltIn (Some e) (emit (Internalize e) m)"
  have ob: "oom ?b = []"
    using assms(1) by (intro setBuiltIn_oom) (simp add: emit_def)
  have sb: "same_shape m ?b"
    using shape_emit shape_setBuiltIn by (rule same_shape_trans)
  have fb: "finite (svc_descendants (reg ?b) e)"
    using assms(2) by (simp add: svc_descendants_shape [OF sb])
  from waitFlag_polls [of env "''IOPCIResourced''" e 2000 ?b] assms(4)
  obtain k where k: "m0 = polls env k ?b" by auto
  have o0: "oom m0 = []" using ob by (simp add: k oom_polls)
  have f0: "finite (svc_descendants (reg m0) e)"
    unfolding k using assms(3) fb by (rule finite_polls)
  from one_pass [OF o0 _ f0, of 0 env] obtain d1 where 1:
    "iterateServicePlane (reg m0) e = Some d1" "set d1 = svc_descendants (reg m0) e"
    "passes env e 0 m0
       = passes env e 1 (IOSleep env 100 (updateDrivers e d1 (updateOtherProperties (Some e) m0)))"
    "oom (updateDrivers e d1 (updateOtherProperties (Some e) m0)) = []"
    "same_shape m0 (updateDrivers e d1 (updateOtherProperties (Some e) m0))"
    "trace (updateDrivers e d1 (updateOtherProperties (Some e) m0))
       = trace m0 @ Update e # map Update (filter (\<lambda>d. d \<noteq> e) d1)"
    by auto
  define p1 where "p1 = updateDrivers e d1 (updateOtherProperties (Some e) m0)"
  define s1 where "s1 = IOSleep env 100 p1"
  have o1: "oom s1 = []" using 1(4) by (simp add: s1_def p1_def IOSleep_def)
  have "finite (svc_descendants (reg p1) e)"
    using f0 by (simp add: p1_def svc_descendants_shape [OF 1(5)])
  with assms(3) have f1: "finite (svc_descendants (reg s1) e)"
    by (simp add: s1_def IOSleep_def)
  have t1: "trace s1 = trace m0 @ Update e # map Update (filter (\<lambda>d. d \<noteq> e) d1) @ [Sleep 100]"
    using 1(6) by (simp add: s1_def p1_def IOSleep_def)
  from one_pass [OF o1 _ f1, of 1 env] obtain d2 where 2:
    "iterateServicePlane (reg s1) e = Some d2" "set d2 = svc_descendants (reg s1) e"
    "passes env e 1 s1
       = passes env e 2 (IOSleep env 100 (updateDrivers e d2 (updateOtherProperties (Some e) s1)))"
    "oom (updateDrivers e d2 (updateOtherProperties (Some e) s1)) = []"
    "same_shape s1 (updateDrivers e d2 (updateOtherProperties (Some e) s1))"
    "trace (updateDrivers e d2 (updateOtherProperties (Some e) s1))
       = trace s1 @ Update e # map Update (filter (\<lambda>d. d \<noteq> e) d2)"
    by auto
  define p2 where "p2 = updateDrivers e d2 (updateOtherProperties (Some e) s1)"
  define s2 where "s2 = IOSleep env 100 p2"
  have o2: "oom s2 = []" using 2(4) by (simp add: s2_def p2_def IOSleep_def)
  have "finite (svc_descendants (reg p2) e)"
    using f1 by (simp add: p2_def svc_descendants_shape [OF 2(5)])
  with assms(3) have f2: "finite (svc_descendants (reg s2) e)"
    by (simp add: s2_def IOSleep_def)
  have t2: "trace s2 = trace s1 @ Update e # map Update (filter (\<lambda>d. d \<noteq> e) d2) @ [Sleep 100]"
    using 2(6) by (simp add: s2_def p2_def IOSleep_def)
  from one_pass [OF o2 _ f2, of 2 env] obtain d3 where 3:
    "iterateServicePlane (reg s2) e = Some d3" "set d3 = svc_descendants (reg s2) e"
    "passes env e 2 s2
       = passes env e 3 (updateDrivers e d3 (updateOtherProperties (Some e) s2))"
    "trace (updateDrivers e d3 (updateOtherProperties (Some e) s2))
       = trace s2 @ Update e # map Update (filter (\<lambda>d. d \<noteq> e) d3)"
    by auto
  define p3 where "p3 = updateDrivers e d3 (updateOtherProperties (Some e) s2)"
  have "passes env e 0 m0 = Inr p3"
    using 1(3) 2(3) 3(3) by (simp add: passes_done p3_def s2_def p2_def s1_def p1_def)
  then have run: "internalizeDevice env e m = Inr p3"
    using assms(4,5) by (simp add: internalizeDevice_def)
  have tr: "trace p3 = trace m0
         @ Update e # map Update (filter (\<lambda>d. d \<noteq> e) d1)
         @ Sleep 100 # Update e # map Update (filter (\<lambda>d. d \<noteq> e) d2)
         @ Sleep 100 # Update e # map Update (filter (\<lambda>d. d \<noteq> e) d3)"
    using 3(4) by (simp add: p3_def t2 t1)
  have w1: "well_formed m0 \<longrightarrow> pass_written e d1 m0 p1"
    using pass_values [OF _ o0] by (simp add: p1_def)
  have w2: "well_formed s1 \<longrightarrow> pass_written e d2 s1 p2"
    using pass_values [OF _ o1] by (simp add: p2_def)
  have w3: "well_formed s2 \<longrightarrow> pass_written e d3 s2 p3"
    using pass_values [OF _ o2] by (simp add: p3_def)
  show ?thesis
    apply (rule exI [of _ d1], rule exI [of _ d2], rule exI [of _ d3])
    apply (rule exI [of _ p1], rule exI [of _ p2], rule exI [of _ p3])
    using 1(1,2) 2(1,2) 3(1,2) run tr w1 w2 w3
    by (simp add: p1_def p2_def p3_def s1_def s2_def)
qed


theorem three_passes_witness:
  "\<exists>p3. internalizeDevice env_idle 5 (machine_of ex_drive) = Inr p3
     \<and> trace p3 = [Internalize 5, Update 5, Update 6, Update 7, Sleep 100,
                    Update 5, Update 6, Update 7, Sleep 100, Update 5, Update 6, Update 7]
     \<and> property_state 1 p3 7 ''built-in'' = Some (VData [1])
     \<and> property_state 1 p3 6 ''Physical Interconnect Location'' = Some (VString ''Internal'')"
proof -
  let ?M = "machine_of ex_drive"
  let ?b = "setBuiltIn (Some 5) (emit (Internalize 5) ?M)"
  have plan: "oom ?M = []" by (simp add: machine_of_def)
  have fin: "finite (svc_descendants (reg ?M) 5)"
    using ex_drive_descendants by (simp add: machine_of_def)
  have envfin: "\<forall>t d r. finite (svc_descendants r 5) \<longrightarrow>
                  finite (svc_descendants (env_idle t d r) 5)"
    by (simp add: env_idle_def)
  have sb: "same_shape ?M ?b"
    using shape_emit shape_setBuiltIn by (rule same_shape_trans)
  have tb: "trace ?b = [Internalize 5]"
    by (simp add: setBuiltIn_trace emit_def machine_of_def)
  have "getProperty 5 ''IOPCIResourced'' ?b = Some 0"
    by (simp add: setBuiltIn_get) (simp add: getProperty_def emit_def machine_of_def ex_drive_def)
  moreover have "object_at ?b 0 = Some (OSBoolean True)"
    by (rule heap_grows_object [OF setBuiltIn_grows])
      (simp add: object_at_def emit_def machine_of_def ex_drive_def)
  ultimately have "isTrue ''IOPCIResourced'' 5 ?b"
    by (simp add: isTrue_def)
  then have wait: "waitFlag env_idle ''IOPCIResourced'' 5 2000 ?b = (2000, ?b)"
    by (subst waitFlag.simps) simp
  have pos: "(0 :: int) < 2000" by simp
  have it: "\<And>x. same_shape ?M x \<Longrightarrow> iterateServicePlane (reg x) 5 = Some [6, 7]"
    using iterateServicePlane_shape [of ?M _ 5] ex_drive_iterate by (simp add: machine_of_def)
  from three_passes [OF plan fin envfin wait pos] obtain d1 d2 d3 p1 p2 p3 where r:
    "iterateServicePlane (reg ?b) 5 = Some d1"
    "p1 = updateDrivers 5 d1 (updateOtherProperties (Some 5) ?b)"
    "iterateServicePlane (reg (IOSleep env_idle 100 p1)) 5 = Some d2"
    "p2 = updateDrivers 5 d2 (updateOtherProperties (Some 5) (IOSleep env_idle 100 p1))"
    "iterateServicePlane (reg (IOSleep env_idle 100 p2)) 5 = Some d3"
    "internalizeDevice env_idle 5 ?M = Inr p3"
    "trace p3 = trace ?b
         @ Update 5 # map Update (filter (\<lambda>d. d \<noteq> 5) d1)
         @ Sleep 100 # Update 5 # map Update (filter (\<lambda>d. d \<noteq> 5) d2)
         @ Sleep 100 # Update 5 # map Update (filter (\<lambda>d. d \<noteq> 5) d3)"
    "well_formed (IOSleep env_idle 100 p2) \<longrightarrow> pass_written 5 d3 (IOSleep env_idle 100 p2) p3"
    by blast
  have d1: "d1 = [6, 7]" using r(1) it [OF sb] by simp
  have s1: "same_shape ?M p1"
    unfolding r(2)
    by (rule same_shape_trans [OF same_shape_trans [OF sb shape_updateOtherProperties]
          shape_updateDrivers])
  have s1': "same_shape ?M (IOSleep env_idle 100 p1)"
    using s1 shape_IOSleep [OF keeps_shape_idle] by (rule same_shape_trans)
  have d2: "d2 = [6, 7]" using r(3) it [OF s1'] by simp
  have s2: "same_shape ?M p2"
    unfolding r(4)
    by (rule same_shape_trans [OF same_shape_trans [OF s1' shape_updateOtherProperties]
          shape_updateDrivers])
  have s2': "same_shape ?M (IOSleep env_idle 100 p2)"
    using s2 shape_IOSleep [OF keeps_shape_idle] by (rule same_shape_trans)
  have d3: "d3 = [6, 7]" using r(5) it [OF s2'] by simp
  have tr: "trace p3 = [Internalize 5, Update 5, Update 6, Update 7, Sleep 100,
                    Update 5, Update 6, Update 7, Sleep 100, Update 5, Update 6, Update 7]"
    unfolding r(7) tb d1 d2 d3 by simp
  note gb = effect_good [OF effect_entry [OF ex_drive_well_formed plan, of 5]]
  note g1 = effect_good [OF pass_effect [OF gb [THEN conjunct1] gb [THEN conjunct2], of 5 d1]]
  note h1 = effect_good [OF effect_sleep [OF static_idle g1 [THEN conjunct1] g1 [THEN conjunct2],
        of 100]]
  note g2 = effect_good [OF pass_effect [OF h1 [THEN conjunct1] h1 [THEN conjunct2], of 5 d2]]
  note h2 = effect_good [OF effect_sleep [OF static_idle g2 [THEN conjunct1] g2 [THEN conjunct2],
        of 100]]
  have "well_formed (IOSleep env_idle 100 p2)"
    using h2 [THEN conjunct1] by (simp only: r(2) r(4))
  with r(8) have pw: "pass_written 5 [6, 7] (IOSleep env_idle 100 p2) p3"
    by (simp add: d3)
  have v1: "property_state 1 p3 7 ''built-in'' = Some (VData [1])"
    using pw [unfolded pass_written_def, rule_format, of 1 7 BuiltIn]
    by (simp add: leaf_def)
  have v2: "property_state 1 p3 6 ''Physical Interconnect Location'' = Some (VString ''Internal'')"
    using pw [unfolded pass_written_def, rule_format, of 1 6 Location]
    by (simp add: leaf_def)
  from r(6) tr v1 v2 show ?thesis by blast
qed


section \<open>The walk over the device tree\<close>

subsection \<open>The walk as a sequence of children\<close>

lemma bridgeChildren_each:
  "bridgeChildren fuel cc env cs m = each (route_child fuel cc env) cs m"
proof (induction cs arbitrary: m)
  case Nil
  then show ?case by simp
next
  case (Cons c cs)
  show ?case
    by (simp add: route_child_def classify_def Cons.IH
        split: option.splits sum.splits prod.splits kind.splits)
qed

lemma recurseBridge_each:
  assumes "oom m = []"
  shows "recurseBridge (Suc fuel) cc env b m
           = each (route_child fuel cc env) (dt_children (entries (reg m) b)) (emit (Recurse b) m)"
proof -
  have "oom (emit (Recurse b) m) = []" using assms by (simp add: emit_def)
  from getChildIterator_plan [OF this, of b] show ?thesis
    by (simp add: bridgeChildren_each emit_def)
qed


text \<open>The machines between the children of a run of \<open>each\<close> that returns.\<close>

lemma each_states:
  "each f cs m = Inr m' \<Longrightarrow>
     \<exists>ss. length ss = Suc (length cs) \<and> ss ! 0 = m \<and> ss ! length cs = m'
        \<and> (\<forall>i<length cs. f (cs ! i) (ss ! i) = Inr (ss ! Suc i))"
proof (induction cs arbitrary: m)
  case Nil
  then show ?case by (intro exI [of _ "[m]"]) simp
next
  case (Cons c cs)
  from Cons.prems obtain m1 where 1: "f c m = Inr m1" "each f cs m1 = Inr m'"
    by (auto split: sum.splits)
  from Cons.IH [OF 1(2)] obtain ss where ss: "length ss = Suc (length cs)" "ss ! 0 = m1"
    "ss ! length cs = m'" "\<forall>i<length cs. f (cs ! i) (ss ! i) = Inr (ss ! Suc i)"
    by blast
  have "\<forall>i<length (c # cs). f ((c # cs) ! i) ((m # ss) ! i) = Inr ((m # ss) ! Suc i)"
  proof (intro allI impI)
    fix i
    assume "i < length (c # cs)"
    then show "f ((c # cs) ! i) ((m # ss) ! i) = Inr ((m # ss) ! Suc i)"
      using 1(1) ss(2,4) by (cases i) auto
  qed
  with ss(1,3) show ?case
    by (intro exI [of _ "m # ss"]) simp
qed

text \<open>The two ways a bounded wait ends.\<close>

lemma waitFlag_cases:
  "(\<exists>k<n. (\<forall>j<k. \<not> isTrue key e (polls env j m)) \<and> isTrue key e (polls env k m)
        \<and> waitFlag env key e (int n) m = (int n - int k, polls env k m))
   \<or> ((\<forall>k<n. \<not> isTrue key e (polls env k m))
        \<and> (\<exists>t\<le>0. waitFlag env key e (int n) m = (t, polls env n m)))"
proof (cases "\<forall>k<n. \<not> isTrue key e (polls env k m)")
  case True
  with waitFlag_budget [OF True] show ?thesis by blast
next
  case False
  then obtain k0 where k0: "k0 < n" "isTrue key e (polls env k0 m)" by blast
  define k where "k = (LEAST k. isTrue key e (polls env k m))"
  have kt: "isTrue key e (polls env k m)"
    unfolding k_def using k0(2) by (rule LeastI)
  have kl: "\<forall>j<k. \<not> isTrue key e (polls env j m)"
    unfolding k_def using not_less_Least by blast
  have kn: "k < n"
    using k0 Least_le [of "\<lambda>k. isTrue key e (polls env k m)" k0] by (simp add: k_def)
  from waitFlag_found [OF kl kt, of "int n"] kn
  have "waitFlag env key e (int n) m = (int n - int k, polls env k m)" by simp
  with kl kt kn show ?thesis by blast
qed

text \<open>What a step of \<open>route_child\<close> that returns has done, by the class code.\<close>

lemma route_child_storage:
  assumes "route_child fuel cc env c s = Inr s'"
    and "getProperty c ''class-code'' s = Some a" "castData s a = Some bs"
    and "read_u32 bs = Some code"
    and "code \<in> {SATADevice cc, NVMeDevice cc, RAIDDevice cc}"
  shows "internalizeDevice env c s = Inr s'"
    and "\<exists>evs. trace s' = trace s @ Internalize c # evs"
proof -
  show r: "internalizeDevice env c s = Inr s'"
    using assms by (simp add: route_child_def classify_def)
  from internalizeDevice_trace [OF r] show "\<exists>evs. trace s' = trace s @ Internalize c # evs"
    by blast
qed

lemma route_child_bridge:
  assumes "route_child fuel cc env c s = Inr s'"
    and "getProperty c ''class-code'' s = Some a" "castData s a = Some bs"
    and "read_u32 bs = Some code"
    and "code \<notin> {SATADevice cc, NVMeDevice cc, RAIDDevice cc}" "code = PCIBridge cc"
  shows "(\<exists>k<1000. (\<forall>j<k. \<not> isTrue ''IOPCIConfigured'' c (polls env j s))
            \<and> isTrue ''IOPCIConfigured'' c (polls env k s)
            \<and> recurseBridge fuel cc env c (polls env k s) = Inr s')
         \<or> ((\<forall>k<1000. \<not> isTrue ''IOPCIConfigured'' c (polls env k s))
            \<and> s' = polls env 1000 s)"
proof -
  have r: "(case waitFlag env ''IOPCIConfigured'' c 1000 s of
             (timeout, m1) \<Rightarrow> if timeout > 0 then recurseBridge fuel cc env c m1 else Inr m1)
           = Inr s'"
    using assms by (simp add: route_child_def classify_def)
  from waitFlag_cases [of 1000 "''IOPCIConfigured''" c env s]
  show ?thesis
  proof (elim disjE exE conjE)
    fix k :: nat
    assume k: "k < 1000" "\<forall>j<k. \<not> isTrue ''IOPCIConfigured'' c (polls env j s)"
      "isTrue ''IOPCIConfigured'' c (polls env k s)"
      "waitFlag env ''IOPCIConfigured'' c (int 1000) s = (int 1000 - int k, polls env k s)"
    from r k(1,4) have "recurseBridge fuel cc env c (polls env k s) = Inr s'" by simp
    with k(1,2,3) show ?thesis by blast
  next
    fix t :: int
    assume t: "\<forall>k<1000. \<not> isTrue ''IOPCIConfigured'' c (polls env k s)" "t \<le> 0"
      "waitFlag env ''IOPCIConfigured'' c (int 1000) s = (t, polls env 1000 s)"
    from r t(2,3) have "s' = polls env 1000 s" by simp
    with t(1) show ?thesis by blast
  qed
qed

lemma route_child_other:
  assumes "route_child fuel cc env c s = Inr s'"
    and "getProperty c ''class-code'' s = Some a" "castData s a = Some bs"
    and "read_u32 bs = Some code"
    and "code \<notin> {SATADevice cc, NVMeDevice cc, RAIDDevice cc, PCIBridge cc}"
  shows "s' = s"
  using assms by (simp add: route_child_def classify_def)

lemma route_child_no_blob:
  assumes "route_child fuel cc env c s = Inr s'"
    and "\<forall>a. getProperty c ''class-code'' s = Some a \<longrightarrow> castData s a = None"
  shows "s' = s"
  using assms by (simp add: route_child_def classify_def split: option.splits)


lemma not_a_cell_code: "''class-code'' \<notin> range cell_key"
proof
  assume "''class-code'' \<in> range cell_key"
  then obtain c where "cell_key c = ''class-code''" by auto
  then show False by (cases c) simp_all
qed

lemma classify_effect:
  assumes "effect m m' cs" "well_formed m"
  shows "classify cc c m' = classify cc c m"
proof -
  have g: "getProperty c ''class-code'' m' = getProperty c ''class-code'' m"
    using assms(1) not_a_cell_code by (simp add: effect_def)
  show ?thesis
  proof (cases "getProperty c ''class-code'' m")
    case None
    with g show ?thesis by (simp add: classify_def)
  next
    case (Some a)
    with assms(2) have "a < length (heap (reg m))" by (auto simp: well_formed_def)
    moreover have "heap_grows m m'" using assms(1) by (simp add: effect_def)
    ultimately have "object_at m' a = object_at m a" by (rule heap_grows_old [rotated])
    with g Some show ?thesis by (simp add: classify_def castData_def)
  qed
qed

lemma ex_tree_facts:
  "oom (machine_of ex_tree) = []"
  "well_formed (machine_of ex_tree)"
  "dt_children (entries (reg (machine_of ex_tree)) 10) = [11, 12, 14, 15]"
  "dt_children (entries (reg (machine_of ex_tree)) 11) = [13]"
  "classify pci_codes 11 (machine_of ex_tree) = Inr Bridge"
  "classify pci_codes 12 (machine_of ex_tree) = Inr Storage"
  "classify pci_codes 13 (machine_of ex_tree) = Inr Storage"
  "classify pci_codes 14 (machine_of ex_tree) = Inr Neither"
  "classify pci_codes 15 (machine_of ex_tree) = Inr Neither"
  "isTrue ''IOPCIConfigured'' 11 (machine_of ex_tree)"
  "isTrue ''IOPCIResourced'' 12 (machine_of ex_tree)"
  "isTrue ''IOPCIResourced'' 13 (machine_of ex_tree)"
  "iterateServicePlane (reg (machine_of ex_tree)) 12 = Some []"
  "iterateServicePlane (reg (machine_of ex_tree)) 13 = Some []"
  "property_state 1 (machine_of ex_tree) 11 ''built-in'' = None"
  "property_state 1 (machine_of ex_tree) 14 ''built-in'' = None"
  by (simp_all add: machine_of_def ex_tree_def blank_entry_def well_formed_def heap_closed_def
      getProperty_def classify_def castData_def object_at_def read_u32_def pci_codes_def
      isTrue_def iterateServicePlane_def getNextObjects.simps property_state_def
      less_Suc_eq nth_Cons')


text \<open>A resourced storage child in a registry that nothing else changes.\<close>

lemma route_storage_static:
  assumes "static env" "effect M s cs" "well_formed M"
    and "classify cc c M = Inr Storage" "isTrue ''IOPCIResourced'' c M"
    and "iterateServicePlane (reg M) c = Some ds"
  shows "\<exists>s'. route_child fuel cc env c s = Inr s' \<and> effect M s' (script_of c M @ cs)"
proof -
  note g = effect_good [OF assms(2)]
  have f: "isTrue ''IOPCIResourced'' c s"
    using effect_flag [OF assms(2,3), of c] assms(5) by simp
  have i: "iterateServicePlane (reg s) c = Some ds"
    using effect_iterate [OF assms(2), of c] assms(6) by simp
  from run_static_resourced [OF assms(1) g [THEN conjunct1] g [THEN conjunct2] f i]
  obtain s' where r: "internalizeDevice env c s = Inr s'" and e: "effect s s' (script_of c s)"
    by blast
  have "script_of c s = script_of c M" using assms(2,3) by (rule effect_script)
  with e effect_trans [OF assms(2)] have "effect M s' (script_of c M @ cs)" by simp
  moreover have "route_child fuel cc env c s = Inr s'"
    using r classify_effect [OF assms(2,3), of cc c] assms(4) by (simp add: route_child_def)
  ultimately show ?thesis by blast
qed

lemma route_neither_static:
  assumes "effect M s cs" "well_formed M" "classify cc c M = Inr Neither"
  shows "route_child fuel cc env c s = Inr s"
  using classify_effect [OF assms(1,2), of cc c] assms(3) by (simp add: route_child_def)


text \<open>
  C3. When the child iterator can be allocated, \<open>recurseBridge\<close> on a bridge \<open>b\<close> is
  \<open>route_child\<close> on every child of \<open>b\<close> in the device tree, in the order of the
  iterator, each from the machine that the one before it left; it returns exactly when
  the step of every child returns. When it returns there is a machine \<open>ss ! i\<close> at
  which child \<open>i\<close> is reached, the first right after the \<open>Recurse\<close> event and the
  one after the last child the result, and for every child, with what its
  \<open>class-code\<close> is at that machine: a blob that reads as a storage code sends the child
  to \<open>internalizeDevice\<close>, whatever its other properties are, and the next child
  follows from where that ends; for the bridge code the child is walked from the first
  of the 1000 polls that sees \<open>IOPCIConfigured\<close> true, and not walked when none does;
  with any other code, or a \<open>class-code\<close> that is absent or not a blob, the machine is
  left as it is.
\<close>

theorem classification_routing:
  assumes "oom m = []"
  shows "recurseBridge (Suc fuel) cc env b m
           = each (route_child fuel cc env) (dt_children (entries (reg m) b))
               (emit (Recurse b) m)
     \<and> (\<forall>m'. recurseBridge (Suc fuel) cc env b m = Inr m' \<longrightarrow>
          (\<exists>ss. length ss = Suc (length (dt_children (entries (reg m) b)))
             \<and> ss ! 0 = emit (Recurse b) m
             \<and> ss ! length (dt_children (entries (reg m) b)) = m'
             \<and> (\<forall>i<length (dt_children (entries (reg m) b)).
                  (\<forall>a bs code.
                      getProperty (dt_children (entries (reg m) b) ! i) ''class-code'' (ss ! i)
                        = Some a
                      \<and> castData (ss ! i) a = Some bs \<and> read_u32 bs = Some code \<longrightarrow>
                      (code \<in> {SATADevice cc, NVMeDevice cc, RAIDDevice cc} \<longrightarrow>
                         internalizeDevice env (dt_children (entries (reg m) b) ! i) (ss ! i)
                           = Inr (ss ! Suc i)
                         \<and> (\<exists>evs. trace (ss ! Suc i)
                               = trace (ss ! i)
                                   @ Internalize (dt_children (entries (reg m) b) ! i) # evs))
                      \<and> (code \<notin> {SATADevice cc, NVMeDevice cc, RAIDDevice cc}
                           \<and> code = PCIBridge cc \<longrightarrow>
                         (\<exists>k<1000.
                             (\<forall>j<k. \<not> isTrue ''IOPCIConfigured''
                                        (dt_children (entries (reg m) b) ! i)
                                        (polls env j (ss ! i)))
                             \<and> isTrue ''IOPCIConfigured'' (dt_children (entries (reg m) b) ! i)
                                 (polls env k (ss ! i))
                             \<and> recurseBridge fuel cc env (dt_children (entries (reg m) b) ! i)
                                 (polls env k (ss ! i)) = Inr (ss ! Suc i))
                         \<or> ((\<forall>k<1000. \<not> isTrue ''IOPCIConfigured''
                                          (dt_children (entries (reg m) b) ! i)
                                          (polls env k (ss ! i)))
                             \<and> ss ! Suc i = polls env 1000 (ss ! i)))
                      \<and> (code \<notin> {SATADevice cc, NVMeDevice cc, RAIDDevice cc, PCIBridge cc}
                           \<longrightarrow> ss ! Suc i = ss ! i))
                  \<and> ((\<forall>a. getProperty (dt_children (entries (reg m) b) ! i) ''class-code''
                             (ss ! i) = Some a \<longrightarrow> castData (ss ! i) a = None)
                       \<longrightarrow> ss ! Suc i = ss ! i))))"
proof (intro conjI allI impI)
  let ?cs = "dt_children (entries (reg m) b)"
  show eq: "recurseBridge (Suc fuel) cc env b m
              = each (route_child fuel cc env) ?cs (emit (Recurse b) m)"
    using assms by (rule recurseBridge_each)
  fix m'
  assume "recurseBridge (Suc fuel) cc env b m = Inr m'"
  with eq have "each (route_child fuel cc env) ?cs (emit (Recurse b) m) = Inr m'" by simp
  from each_states [OF this] obtain ss where ss: "length ss = Suc (length ?cs)"
    "ss ! 0 = emit (Recurse b) m" "ss ! length ?cs = m'"
    "\<forall>i<length ?cs. route_child fuel cc env (?cs ! i) (ss ! i) = Inr (ss ! Suc i)"
    by blast
  show "\<exists>ss. length ss = Suc (length ?cs) \<and> ss ! 0 = emit (Recurse b) m
      \<and> ss ! length ?cs = m'
      \<and> (\<forall>i<length ?cs.
           (\<forall>a bs code.
               getProperty (?cs ! i) ''class-code'' (ss ! i) = Some a
               \<and> castData (ss ! i) a = Some bs \<and> read_u32 bs = Some code \<longrightarrow>
               (code \<in> {SATADevice cc, NVMeDevice cc, RAIDDevice cc} \<longrightarrow>
                  internalizeDevice env (?cs ! i) (ss ! i) = Inr (ss ! Suc i)
                  \<and> (\<exists>evs. trace (ss ! Suc i) = trace (ss ! i) @ Internalize (?cs ! i) # evs))
               \<and> (code \<notin> {SATADevice cc, NVMeDevice cc, RAIDDevice cc}
                    \<and> code = PCIBridge cc \<longrightarrow>
                  (\<exists>k<1000.
                      (\<forall>j<k. \<not> isTrue ''IOPCIConfigured'' (?cs ! i) (polls env j (ss ! i)))
                      \<and> isTrue ''IOPCIConfigured'' (?cs ! i) (polls env k (ss ! i))
                      \<and> recurseBridge fuel cc env (?cs ! i) (polls env k (ss ! i))
                          = Inr (ss ! Suc i))
                  \<or> ((\<forall>k<1000. \<not> isTrue ''IOPCIConfigured'' (?cs ! i) (polls env k (ss ! i)))
                      \<and> ss ! Suc i = polls env 1000 (ss ! i)))
               \<and> (code \<notin> {SATADevice cc, NVMeDevice cc, RAIDDevice cc, PCIBridge cc}
                    \<longrightarrow> ss ! Suc i = ss ! i))
           \<and> ((\<forall>a. getProperty (?cs ! i) ''class-code'' (ss ! i) = Some a \<longrightarrow>
                   castData (ss ! i) a = None)
                \<longrightarrow> ss ! Suc i = ss ! i))"
  proof (intro exI [of _ ss] conjI allI impI)
    fix i
    assume "i < length ?cs"
    with ss(4) have r: "route_child fuel cc env (?cs ! i) (ss ! i) = Inr (ss ! Suc i)" by simp
    {
      fix a bs code
      assume c: "getProperty (?cs ! i) ''class-code'' (ss ! i) = Some a
               \<and> castData (ss ! i) a = Some bs \<and> read_u32 bs = Some code"
      note c1 = c [THEN conjunct1] and c2 = c [THEN conjunct2, THEN conjunct1]
        and c3 = c [THEN conjunct2, THEN conjunct2]
      {
        assume s: "code \<in> {SATADevice cc, NVMeDevice cc, RAIDDevice cc}"
        show "internalizeDevice env (?cs ! i) (ss ! i) = Inr (ss ! Suc i)"
          using r c1 c2 c3 s by (rule route_child_storage(1))
        show "\<exists>evs. trace (ss ! Suc i) = trace (ss ! i) @ Internalize (?cs ! i) # evs"
          using r c1 c2 c3 s by (rule route_child_storage(2))
      }
      {
        assume s: "code \<notin> {SATADevice cc, NVMeDevice cc, RAIDDevice cc} \<and> code = PCIBridge cc"
        show "(\<exists>k<1000.
                      (\<forall>j<k. \<not> isTrue ''IOPCIConfigured'' (?cs ! i) (polls env j (ss ! i)))
                      \<and> isTrue ''IOPCIConfigured'' (?cs ! i) (polls env k (ss ! i))
                      \<and> recurseBridge fuel cc env (?cs ! i) (polls env k (ss ! i))
                          = Inr (ss ! Suc i))
                  \<or> ((\<forall>k<1000. \<not> isTrue ''IOPCIConfigured'' (?cs ! i) (polls env k (ss ! i)))
                      \<and> ss ! Suc i = polls env 1000 (ss ! i))"
          using r c1 c2 c3 s [THEN conjunct1] s [THEN conjunct2] by (rule route_child_bridge)
      }
      {
        assume s: "code \<notin> {SATADevice cc, NVMeDevice cc, RAIDDevice cc, PCIBridge cc}"
        show "ss ! Suc i = ss ! i"
          using r c1 c2 c3 s by (rule route_child_other)
      }
    }
    {
      assume "\<forall>a. getProperty (?cs ! i) ''class-code'' (ss ! i) = Some a \<longrightarrow>
                   castData (ss ! i) a = None"
      with r show "ss ! Suc i = ss ! i" by (rule route_child_no_blob)
    }
  qed (use ss in simp_all)
qed


theorem classification_routing_witness:
  "\<exists>m'. recurseBridge 2 pci_codes env_idle 10 (machine_of ex_tree) = Inr m'
     \<and> property_state 1 m' 13 ''built-in'' = Some (VData [1])
     \<and> property_state 1 m' 12 ''built-in'' = Some (VData [1])
     \<and> property_state 1 m' 11 ''built-in'' = None
     \<and> property_state 1 m' 14 ''built-in'' = None"
proof -
  let ?M = "machine_of ex_tree"
  let ?s0 = "emit (Recurse 10) ?M"
  let ?s1 = "emit (Recurse 11) ?s0"
  let ?R1 = "route_child 1 pci_codes env_idle"
  let ?R0 = "route_child 0 pci_codes env_idle"
  note f = ex_tree_facts
  have e0: "effect ?M ?s0 []"
    using f(2,1) by (rule effect_same) (simp_all add: emit_def)
  have e1: "effect ?M ?s1 []"
    using f(2,1) by (rule effect_same) (simp_all add: emit_def)
  from route_storage_static [OF static_idle e1 f(2) f(7) f(12) f(14), of 0]
  obtain s2 where s2: "?R0 13 ?s1 = Inr s2" "effect ?M s2 (script_of 13 ?M @ [])" by blast
  from route_storage_static [OF static_idle s2(2) f(2) f(6) f(11) f(13), of 1]
  obtain s3 where s3: "?R1 12 s2 = Inr s3"
    "effect ?M s3 (script_of 12 ?M @ script_of 13 ?M @ [])" by blast
  note n14 = route_neither_static [OF s3(2) f(2) f(8), of 1 env_idle]
  note n15 = route_neither_static [OF s3(2) f(2) f(9), of 1 env_idle]
  have inner: "recurseBridge 1 pci_codes env_idle 11 ?s0 = Inr s2"
  proof -
    have "oom ?s0 = []" using f(1) by (simp add: emit_def)
    from recurseBridge_each [OF this, of 0 pci_codes env_idle 11] s2(1) f(4)
    show ?thesis by (simp add: emit_def)
  qed
  have "isTrue ''IOPCIConfigured'' 11 ?s0"
    using isTrue_reg [of ?s0 ?M "''IOPCIConfigured''" 11] f(10) by (simp add: emit_def)
  then have "waitFlag env_idle ''IOPCIConfigured'' 11 1000 ?s0 = (1000, ?s0)"
    by (subst waitFlag.simps) simp
  then have r11: "?R1 11 ?s0 = Inr s2"
    using classify_effect [OF e0 f(2), of pci_codes 11] f(5) inner
    by (simp add: route_child_def)
  have plan: "oom ?M = []" by (rule f(1))
  note eq = classification_routing [OF plan, of 1 pci_codes env_idle 10, THEN conjunct1]
  have run: "recurseBridge 2 pci_codes env_idle 10 ?M = Inr s3"
    using eq r11 s3(1) n14 n15 by (simp add: f(3) numeral_2_eq_2)
  have sc: "script_of 13 ?M = [(13, BuiltIn), (13, Protocol), (13, Icon), (13, Location),
        (13, BuiltIn), (13, Protocol), (13, Icon), (13, Location),
        (13, BuiltIn), (13, Protocol), (13, Icon), (13, Location), (13, BuiltIn)]"
    "script_of 12 ?M = [(12, BuiltIn), (12, Protocol), (12, Icon), (12, Location),
        (12, BuiltIn), (12, Protocol), (12, Icon), (12, Location),
        (12, BuiltIn), (12, Protocol), (12, Icon), (12, Location), (12, BuiltIn)]"
    using f(11-14) by (simp_all add: script_of_def driver_cells_def update_cells_def)
  note st = effect_state [OF s3(2), of 1]
  have v: "property_state 1 s3 13 (cell_key BuiltIn) = Some (VData [1])"
    "property_state 1 s3 12 (cell_key BuiltIn) = Some (VData [1])"
    "property_state 1 s3 11 (cell_key BuiltIn) = None"
    "property_state 1 s3 14 (cell_key BuiltIn) = None"
    unfolding st run_cells_at using f(15,16) by (simp_all add: sc leaf_def)
  from run v show ?thesis by simp
qed


section \<open>The root locator, child by child\<close>

subsection \<open>The second scan\<close>

text \<open>The unbounded wait ends at the first poll that sees the flag, and only there.\<close>

lemma waitRootConfigured_first:
  assumes "waitRootConfigured env e m = Some m'"
  shows "\<exists>k. m' = polls env k m \<and> isTrue ''IOPCIConfigured'' e (polls env k m)
           \<and> (\<forall>j<k. \<not> isTrue ''IOPCIConfigured'' e (polls env j m))"
proof (rule waitRootConfigured.raw_induct
    [where P = "\<lambda>env e m m'. \<exists>k. m' = polls env k m
        \<and> isTrue ''IOPCIConfigured'' e (polls env k m)
        \<and> (\<forall>j<k. \<not> isTrue ''IOPCIConfigured'' e (polls env j m))",
      OF _ assms], goal_cases)
  case (1 w env e m m')
  show ?case
  proof (cases "isTrue ''IOPCIConfigured'' e m")
    case True
    with 1(2) have "m' = m" by simp
    with True have "m' = polls env 0 m \<and> isTrue ''IOPCIConfigured'' e (polls env 0 m)
        \<and> (\<forall>j<0. \<not> isTrue ''IOPCIConfigured'' e (polls env j m))"
      by (simp add: polls_0)
    then show ?thesis by (rule exI [of _ 0])
  next
    case False
    with 1(2) have "w env e (IOSleep env 10 m) = Some m'" by simp
    from 1(1) [OF this] obtain k where
      k: "m' = polls env k (IOSleep env 10 m)"
        "isTrue ''IOPCIConfigured'' e (polls env k (IOSleep env 10 m))"
        "\<forall>j<k. \<not> isTrue ''IOPCIConfigured'' e (polls env j (IOSleep env 10 m))"
      by (elim exE conjE)
    have "\<forall>j<Suc k. \<not> isTrue ''IOPCIConfigured'' e (polls env j m)"
    proof (intro allI impI)
      fix j
      assume "j < Suc k"
      then show "\<not> isTrue ''IOPCIConfigured'' e (polls env j m)"
        using False k(3) by (cases j) (simp_all add: polls_0 polls_Suc)
    qed
    with k(1,2) have "m' = polls env (Suc k) m
        \<and> isTrue ''IOPCIConfigured'' e (polls env (Suc k) m)
        \<and> (\<forall>j<Suc k. \<not> isTrue ''IOPCIConfigured'' e (polls env j m))"
      by (simp add: polls_Suc)
    then show ?thesis by (rule exI [of _ "Suc k"])
  qed
qed

lemma waitRootConfigured_returns:
  "isTrue ''IOPCIConfigured'' e (polls env k m) \<Longrightarrow> waitRootConfigured env e m \<noteq> None"
proof (induction k arbitrary: m)
  case 0
  then show ?case by (simp add: polls_0 waitRootConfigured_now)
next
  case (Suc k)
  show ?case
  proof (cases "isTrue ''IOPCIConfigured'' e m")
    case True
    then show ?thesis by (simp add: waitRootConfigured_now)
  next
    case False
    from Suc.prems have "isTrue ''IOPCIConfigured'' e (polls env k (IOSleep env 10 m))"
      by (simp add: polls_Suc)
    from Suc.IH [OF this] show ?thesis
      by (simp add: waitRootConfigured_later [OF False])
  qed
qed

lemma waitRootConfigured_never:
  "(waitRootConfigured env e m = None)
     = (\<forall>k. \<not> isTrue ''IOPCIConfigured'' e (polls env k m))"
proof
  assume n: "waitRootConfigured env e m = None"
  show "\<forall>k. \<not> isTrue ''IOPCIConfigured'' e (polls env k m)"
  proof (intro allI notI)
    fix k
    assume "isTrue ''IOPCIConfigured'' e (polls env k m)"
    from waitRootConfigured_returns [OF this] n show False by simp
  qed
next
  assume a: "\<forall>k. \<not> isTrue ''IOPCIConfigured'' e (polls env k m)"
  show "waitRootConfigured env e m = None"
  proof (cases "waitRootConfigured env e m")
    case None
    then show ?thesis .
  next
    case (Some m')
    from waitRootConfigured_first [OF Some] a show ?thesis by blast
  qed
qed

text \<open>What a step of \<open>serve_root\<close> that returns has done.\<close>

lemma serve_root_cases:
  assumes "serve_root fuel cc env c s = Inr s'"
  shows "\<exists>k. (\<forall>j<k. \<not> isTrue ''IOPCIConfigured'' c (polls env j (emit (FoundRoot c) s)))
           \<and> isTrue ''IOPCIConfigured'' c (polls env k (emit (FoundRoot c) s))
           \<and> recurseBridge fuel cc env c (polls env k (emit (FoundRoot c) s)) = Inr s'"
proof -
  from assms obtain m1 where w: "waitRootConfigured env c (emit (FoundRoot c) s) = Some m1"
    and r: "recurseBridge fuel cc env c m1 = Inr s'"
    by (auto simp: serve_root_def split: option.splits)
  from waitRootConfigured_first [OF w] r show ?thesis by blast
qed

lemma serve_root_shape:
  assumes "keeps_shape env" "serve_root fuel cc env c s = Inr s'"
  shows "same_shape s s'" "selected (trace s') = selected (trace s) @ [c]"
proof -
  let ?m0 = "emit (FoundRoot c) s"
  from assms(2) obtain m1 where w: "waitRootConfigured env c ?m0 = Some m1"
    and r: "recurseBridge fuel cc env c m1 = Inr s'"
    by (auto simp: serve_root_def split: option.splits)
  from waitRootConfigured_polls [OF w] obtain k where "m1 = polls env k ?m0" by blast
  with calm_polls [OF assms(1)] have c1: "calm ?m0 m1" by simp
  from calm_recurseBridge(1) [OF assms(1) r] have c2: "calm m1 s'" .
  from c1 c2 have c: "calm ?m0 s'" by (rule calm_trans)
  then have "same_shape ?m0 s'" by (simp add: calm_def)
  with shape_emit show "same_shape s s'" by (rule same_shape_trans)
  show "selected (trace s') = selected (trace s) @ [c]"
    using selected_calm [OF c] by (simp add: emit_def selected_append)
qed

text \<open>A scan with \<open>ready\<close> set serves every candidate, in the order of the iterator.\<close>

lemma scanRoots_each:
  assumes "keeps_shape env"
  shows "scanRoots fuel cc env cs True found m
     = (case each (serve_root fuel cc env)
               (filter (\<lambda>c. isPCName (entry_name (entries (reg m) c))) cs) m of
          Inl f \<Rightarrow> Inl f
        | Inr m' \<Rightarrow>
            Inr (True,
                 found \<or> filter (\<lambda>c. isPCName (entry_name (entries (reg m) c))) cs \<noteq> [],
                 m'))"
proof (induction cs arbitrary: found m)
  case Nil
  then show ?case by simp
next
  case (Cons c cs)
  show ?case
  proof (cases "isPCName (entry_name (entries (reg m) c))")
    case False
    then have "filter (\<lambda>c. isPCName (entry_name (entries (reg m) c))) (c # cs)
        = filter (\<lambda>c. isPCName (entry_name (entries (reg m) c))) cs" by simp
    moreover have "scanRoots fuel cc env (c # cs) True found m
        = scanRoots fuel cc env cs True found m" using False by simp
    ultimately show ?thesis by (simp only: Cons.IH)
  next
    case True
    show ?thesis
    proof (cases "serve_root fuel cc env c m")
      case (Inl f)
      then show ?thesis
        using True by (simp add: serve_root_def split: option.splits)
    next
      case (Inr m2)
      from serve_root_shape(1) [OF assms Inr]
      have names: "\<And>x. entry_name (entries (reg m2) x) = entry_name (entries (reg m) x)"
        by (simp add: same_shape_def)
      have "scanRoots fuel cc env (c # cs) True found m = scanRoots fuel cc env cs True True m2"
        using True Inr by (simp add: serve_root_def split: option.splits sum.splits)
      then show ?thesis
        using True Inr by (simp add: Cons.IH names cong: sum.case_cong)
    qed
  qed
qed

lemma each_selected:
  assumes "keeps_shape env"
  shows "each (serve_root fuel cc env) cs m = Inr m' \<Longrightarrow>
           selected (trace m') = selected (trace m) @ cs"
proof (induction cs arbitrary: m)
  case Nil
  then show ?case by simp
next
  case (Cons c cs)
  from Cons.prems obtain m1 where 1: "serve_root fuel cc env c m = Inr m1"
    "each (serve_root fuel cc env) cs m1 = Inr m'"
    by (auto split: sum.splits)
  from Cons.IH [OF 1(2)] serve_root_shape(2) [OF assms 1(1)] show ?case by simp
qed

text \<open>The whole of \<open>processRoot\<close> when the root has a candidate.\<close>

lemma processRoot_each:
  assumes "oom m = []" "keeps_shape env" "dt_root (reg m) = Some entry"
    and "filter (\<lambda>c. isPCName (entry_name (entries (reg m) c)))
           (dt_children (entries (reg m) entry)) \<noteq> []"
  shows "processRoot fuel cc env m
     = (case each (serve_root fuel cc env)
               (filter (\<lambda>c. isPCName (entry_name (entries (reg m) c)))
                  (dt_children (entries (reg m) entry)))
               (IOSleep env 1000 m) of
          Inl f \<Rightarrow> Inl f
        | Inr m' \<Rightarrow> Inr (True, m'))"
proof -
  let ?cs = "dt_children (entries (reg m) entry)"
  let ?s = "IOSleep env 1000 m"
  from assms(4) have ex: "\<exists>c\<in>set ?cs. isPCName (entry_name (entries (reg m) c))"
    by (auto simp: filter_empty_conv)
  have pr: "processRoot fuel cc env m = rootLoop fuel cc env entry True False 1 ?s"
    using rootLoop_pause [OF assms(1) ex] assms(3) by (simp add: processRoot_def)
  have sh: "same_shape m ?s" using assms(2) by (rule shape_IOSleep)
  then have names: "\<And>x. entry_name (entries (reg ?s) x) = entry_name (entries (reg m) x)"
    and kids: "dt_children (entries (reg ?s) entry) = ?cs"
    by (simp_all add: same_shape_def)
  have o: "oom ?s = []" using assms(1) by (simp add: IOSleep_oom)
  have "rootLoop fuel cc env entry True False 1 ?s
     = (case each (serve_root fuel cc env)
               (filter (\<lambda>c. isPCName (entry_name (entries (reg m) c))) ?cs) ?s of
          Inl f \<Rightarrow> Inl f
        | Inr m' \<Rightarrow> Inr (True, m'))"
    using assms(4)
    by (subst rootLoop_step)
      (simp add: scanOnce_plan [OF o] scanRoots_each [OF assms(2)] names kids
        split: sum.splits)
  with pr show ?thesis by simp
qed


text \<open>
  C1, as the code has it. In a device tree whose root, names and children the
  enumeration subsystem leaves alone, with at least one child of the root named
  \<open>PC...\<close>: the first scan stops at the first such child, selects nothing and sleeps
  1000 ms; the loop then scans again from the first child, and this second scan is
  \<open>serve_root\<close> on every child named \<open>PC...\<close>, in the order of the iterator, the first
  one first: the selection is logged, the root is polled every 10 ms until
  \<open>IOPCIConfigured\<close> is true, and it is walked by \<open>recurseBridge\<close> from the first poll
  that sees the flag. The wait has no bound: it does not return exactly when no poll
  ever sees the flag. \<open>processRoot\<close> returns exactly when every one of these waits and
  walks returns, and it has then selected every candidate.
\<close>

theorem locator_rescan:
  assumes "oom m = []" "keeps_shape env" "dt_root (reg m) = Some entry"
    and "filter (\<lambda>c. isPCName (entry_name (entries (reg m) c)))
           (dt_children (entries (reg m) entry)) \<noteq> []"
  shows "scanOnce fuel cc env entry False False m = Inr (True, False, IOSleep env 1000 m)
     \<and> processRoot fuel cc env m
         = rootLoop fuel cc env entry True False 1 (IOSleep env 1000 m)
     \<and> processRoot fuel cc env m
         = (case each (serve_root fuel cc env)
                   (filter (\<lambda>c. isPCName (entry_name (entries (reg m) c)))
                      (dt_children (entries (reg m) entry)))
                   (IOSleep env 1000 m) of
              Inl f \<Rightarrow> Inl f
            | Inr m' \<Rightarrow> Inr (True, m'))
     \<and> (\<forall>c s. (waitRootConfigured env c s = None)
                = (\<forall>k. \<not> isTrue ''IOPCIConfigured'' c (polls env k s)))
     \<and> (\<forall>found m'. processRoot fuel cc env m = Inr (found, m') \<longrightarrow>
           found
           \<and> selected (trace m')
               = selected (trace m) @ filter (\<lambda>c. isPCName (entry_name (entries (reg m) c)))
                   (dt_children (entries (reg m) entry))
           \<and> (\<exists>ss. length ss
                      = Suc (length (filter (\<lambda>c. isPCName (entry_name (entries (reg m) c)))
                               (dt_children (entries (reg m) entry))))
                \<and> ss ! 0 = IOSleep env 1000 m
                \<and> ss ! length (filter (\<lambda>c. isPCName (entry_name (entries (reg m) c)))
                               (dt_children (entries (reg m) entry))) = m'
                \<and> (\<forall>i<length (filter (\<lambda>c. isPCName (entry_name (entries (reg m) c)))
                               (dt_children (entries (reg m) entry))).
                     \<exists>k. (\<forall>j<k. \<not> isTrue ''IOPCIConfigured''
                                     (filter (\<lambda>c. isPCName (entry_name (entries (reg m) c)))
                                        (dt_children (entries (reg m) entry)) ! i)
                                     (polls env j
                                        (emit (FoundRoot
                                           (filter (\<lambda>c. isPCName (entry_name (entries (reg m) c)))
                                              (dt_children (entries (reg m) entry)) ! i))
                                           (ss ! i))))
                        \<and> isTrue ''IOPCIConfigured''
                            (filter (\<lambda>c. isPCName (entry_name (entries (reg m) c)))
                               (dt_children (entries (reg m) entry)) ! i)
                            (polls env k
                               (emit (FoundRoot
                                  (filter (\<lambda>c. isPCName (entry_name (entries (reg m) c)))
                                     (dt_children (entries (reg m) entry)) ! i))
                                  (ss ! i)))
                        \<and> recurseBridge fuel cc env
                            (filter (\<lambda>c. isPCName (entry_name (entries (reg m) c)))
                               (dt_children (entries (reg m) entry)) ! i)
                            (polls env k
                               (emit (FoundRoot
                                  (filter (\<lambda>c. isPCName (entry_name (entries (reg m) c)))
                                     (dt_children (entries (reg m) entry)) ! i))
                                  (ss ! i)))
                          = Inr (ss ! Suc i))))"
proof (intro conjI allI impI)
  let ?cs = "dt_children (entries (reg m) entry)"
  let ?pcs = "filter (\<lambda>c. isPCName (entry_name (entries (reg m) c))) ?cs"
  let ?s = "IOSleep env 1000 m"
  from assms(4) have ex: "\<exists>c\<in>set ?cs. isPCName (entry_name (entries (reg m) c))"
    by (auto simp: filter_empty_conv)
  then show "scanOnce fuel cc env entry False False m = Inr (True, False, ?s)"
    by (simp add: scanOnce_plan [OF assms(1)] scanRoots_not_ready)
  show "processRoot fuel cc env m = rootLoop fuel cc env entry True False 1 ?s"
    using rootLoop_pause [OF assms(1) ex] assms(3) by (simp add: processRoot_def)
  show eq: "processRoot fuel cc env m
         = (case each (serve_root fuel cc env) ?pcs ?s of
              Inl f \<Rightarrow> Inl f
            | Inr m' \<Rightarrow> Inr (True, m'))"
    using assms by (rule processRoot_each)
  show "(waitRootConfigured env c s = None)
          = (\<forall>k. \<not> isTrue ''IOPCIConfigured'' c (polls env k s))" for c s
    by (rule waitRootConfigured_never)
  fix found m'
  assume run: "processRoot fuel cc env m = Inr (found, m')"
  with eq have f: "found" and e: "each (serve_root fuel cc env) ?pcs ?s = Inr m'"
    by (auto split: sum.splits)
  show "found" by (rule f)
  have "selected (trace ?s) = selected (trace m)"
    by (simp add: IOSleep_def selected_append)
  with each_selected [OF assms(2) e]
  show "selected (trace m') = selected (trace m) @ ?pcs" by simp
  from each_states [OF e] obtain ss where ss: "length ss = Suc (length ?pcs)"
    "ss ! 0 = ?s" "ss ! length ?pcs = m'"
    "\<forall>i<length ?pcs. serve_root fuel cc env (?pcs ! i) (ss ! i) = Inr (ss ! Suc i)"
    by blast
  show "\<exists>ss. length ss = Suc (length ?pcs) \<and> ss ! 0 = ?s \<and> ss ! length ?pcs = m'
      \<and> (\<forall>i<length ?pcs.
           \<exists>k. (\<forall>j<k. \<not> isTrue ''IOPCIConfigured'' (?pcs ! i)
                          (polls env j (emit (FoundRoot (?pcs ! i)) (ss ! i))))
              \<and> isTrue ''IOPCIConfigured'' (?pcs ! i)
                  (polls env k (emit (FoundRoot (?pcs ! i)) (ss ! i)))
              \<and> recurseBridge fuel cc env (?pcs ! i)
                  (polls env k (emit (FoundRoot (?pcs ! i)) (ss ! i))) = Inr (ss ! Suc i))"
  proof (intro exI [of _ ss] conjI allI impI)
    fix i
    assume "i < length ?pcs"
    with ss(4) have "serve_root fuel cc env (?pcs ! i) (ss ! i) = Inr (ss ! Suc i)" by simp
    then show "\<exists>k. (\<forall>j<k. \<not> isTrue ''IOPCIConfigured'' (?pcs ! i)
                          (polls env j (emit (FoundRoot (?pcs ! i)) (ss ! i))))
              \<and> isTrue ''IOPCIConfigured'' (?pcs ! i)
                  (polls env k (emit (FoundRoot (?pcs ! i)) (ss ! i)))
              \<and> recurseBridge fuel cc env (?pcs ! i)
                  (polls env k (emit (FoundRoot (?pcs ! i)) (ss ! i))) = Inr (ss ! Suc i)"
      by (rule serve_root_cases)
  qed (use ss in simp_all)
qed

theorem locator_rescan_witness:
  "scanOnce 1 pci_codes env_idle 0 False False (machine_of ex_two_roots)
     = Inr (True, False, IOSleep env_idle 1000 (machine_of ex_two_roots))
   \<and> each (serve_root 1 pci_codes env_idle) [2, 3]
       (IOSleep env_idle 1000 (machine_of ex_two_roots))
     = Inr \<lparr>reg = ex_two_roots, clock = 1000,
            trace = [Sleep 1000, FoundRoot 2, Recurse 2, FoundRoot 3, Recurse 3], oom = []\<rparr>
   \<and> (\<exists>m'. processRoot 1 pci_codes env_idle (machine_of ex_two_roots) = Inr (True, m')
          \<and> selected (trace m') = [2, 3])
   \<and> (\<exists>m'. processRoot 1 pci_codes env_idle (machine_of ex_one_root) = Inr (True, m')
          \<and> selected (trace m') = [3])"
proof -
  have two: "oom (machine_of ex_two_roots) = []"
    "dt_root (reg (machine_of ex_two_roots)) = Some 0"
    "filter (\<lambda>c. isPCName (entry_name (entries (reg (machine_of ex_two_roots)) c)))
       (dt_children (entries (reg (machine_of ex_two_roots)) 0)) = [2, 3]"
    "selected (trace (machine_of ex_two_roots)) = []"
    by (simp_all add: machine_of_def ex_two_roots_def blank_entry_def isPCName_def)
  have one: "oom (machine_of ex_one_root) = []"
    "dt_root (reg (machine_of ex_one_root)) = Some 0"
    "filter (\<lambda>c. isPCName (entry_name (entries (reg (machine_of ex_one_root)) c)))
       (dt_children (entries (reg (machine_of ex_one_root)) 0)) = [3]"
    "selected (trace (machine_of ex_one_root)) = []"
    by (simp_all add: machine_of_def ex_one_root_def blank_entry_def isPCName_def)
  have c2: "filter (\<lambda>c. isPCName (entry_name (entries (reg (machine_of ex_two_roots)) c)))
       (dt_children (entries (reg (machine_of ex_two_roots)) 0)) \<noteq> []"
    unfolding two(3) by simp
  have c1: "filter (\<lambda>c. isPCName (entry_name (entries (reg (machine_of ex_one_root)) c)))
       (dt_children (entries (reg (machine_of ex_one_root)) 0)) \<noteq> []"
    unfolding one(3) by simp
  note t2 = locator_rescan [OF two(1) keeps_shape_idle two(2) c2, of 1 pci_codes]
  note t1 = locator_rescan [OF one(1) keeps_shape_idle one(2) c1, of 1 pci_codes]
  note sel2 = t2 [THEN conjunct2, THEN conjunct2, THEN conjunct2, THEN conjunct2, rule_format,
      OF two_roots_run, THEN conjunct2, THEN conjunct1]
  note sel1 = t1 [THEN conjunct2, THEN conjunct2, THEN conjunct2, THEN conjunct2, rule_format,
      OF one_root_run, THEN conjunct2, THEN conjunct1]
  have "selected (trace \<lparr>reg = ex_two_roots, clock = 1000,
                   trace = [Sleep 1000, FoundRoot 2, Recurse 2, FoundRoot 3, Recurse 3],
                   oom = []\<rparr>) = [2, 3]"
    using sel2 unfolding two(3,4) by simp
  with two_roots_run have g2: "\<exists>m'. processRoot 1 pci_codes env_idle (machine_of ex_two_roots)
          = Inr (True, m') \<and> selected (trace m') = [2, 3]"
    by blast
  have "selected (trace \<lparr>reg = ex_one_root, clock = 1000,
                   trace = [Sleep 1000, FoundRoot 3, Recurse 3], oom = []\<rparr>) = [3]"
    using sel1 unfolding one(3,4) by simp
  with one_root_run have g1: "\<exists>m'. processRoot 1 pci_codes env_idle (machine_of ex_one_root)
          = Inr (True, m') \<and> selected (trace m') = [3]"
    by blast
  have g3: "each (serve_root 1 pci_codes env_idle) [2, 3]
       (IOSleep env_idle 1000 (machine_of ex_two_roots))
     = Inr \<lparr>reg = ex_two_roots, clock = 1000,
            trace = [Sleep 1000, FoundRoot 2, Recurse 2, FoundRoot 3, Recurse 3], oom = []\<rparr>"
  proof (cases "each (serve_root 1 pci_codes env_idle) [2, 3]
       (IOSleep env_idle 1000 (machine_of ex_two_roots))")
    case (Inl f)
    with t2 [THEN conjunct2, THEN conjunct2, THEN conjunct1] two_roots_run show ?thesis
      unfolding two(3) by simp
  next
    case (Inr x)
    with t2 [THEN conjunct2, THEN conjunct2, THEN conjunct1] two_roots_run show ?thesis
      unfolding two(3) by simp
  qed
  from t2 [THEN conjunct1] g3 g2 g1 show ?thesis by blast
qed

end
